theory Spec2Isabelle
  imports Main "HOL-Library.Word" "HOL-Library.Multiset"
begin

unbundle bit_operations_syntax

text \<open>
  A model of the core of the rftp package, a file transfer protocol over UDP, and the
  properties proved of it: the codec of the five messages and their header (msgs.go), the
  sending and receiving of a datagram (connection.go), the queue of received chunks with
  its gaps (queue.go), and of the server session the producer, the rescheduler and the
  cleaner (server.go).  Each function of the package is a function here, named as in the
  source; a method \<open>T.m\<close> is \<open>T_m\<close>.  Integers have the width they have in Go.
\<close>

section \<open>Go primitives used by the rftp package\<close>

type_synonym byte = "8 word"

text \<open>
  A Go function of the package either returns a value, returns a non-nil \<open>error\<close>, or
  panics at run time (index or slice bounds out of range).  The three outcomes are kept
  apart: \<open>Inr v\<close> is a normal return, \<open>Inl Panic\<close> a run-time panic and every other
  \<open>Inl e\<close> an error value handed back to the caller.
\<close>

datatype error =
    OptionTooShort
  | DataSliceTooSmall nat nat
  | MsgHeaderTooShort
  | FileOffsetTooBig
  | UnknownMsgType
  | Panic

type_synonym 'a result = "error + 'a"

definition returnsError :: "'a result \<Rightarrow> bool" where
  "returnsError r = (case r of Inl e \<Rightarrow> e \<noteq> Panic | Inr v \<Rightarrow> False)"

text \<open>Sequencing: the first failure (\<open>if err != nil { return nil, err }\<close>, or a panic)
  ends the computation.\<close>

definition andThen :: "'a result \<Rightarrow> ('a \<Rightarrow> 'b result) \<Rightarrow> 'b result" where
  "andThen r f = (case r of Inl e \<Rightarrow> Inl e | Inr v \<Rightarrow> f v)"

lemma andThen_cong [fundef_cong]:
  "r = r' \<Longrightarrow> (\<And>v. r' = Inr v \<Longrightarrow> f v = f' v) \<Longrightarrow> andThen r f = andThen r' f'"
  by (cases r') (simp_all add: andThen_def)

lemma andThen_Inr [simp]: "andThen (Inr v) f = f v"
  by (simp add: andThen_def)

lemma andThen_Inl [simp]: "andThen (Inl e) f = Inl e"
  by (simp add: andThen_def)

text \<open>
  A byte slice is a window on a backing array: \<open>fst s\<close> are the \<open>len(s)\<close> elements of the
  slice, \<open>snd s\<close> the elements of the backing array that follow them up to \<open>cap(s)\<close>.
  Indexing \<open>s[i]\<close> is checked against the length, re-slicing \<open>s[lo:hi]\<close> against the
  capacity, and \<open>s[lo:]\<close> is \<open>s[lo:len(s)]\<close>.
\<close>

type_synonym slice = "byte list \<times> byte list"

definition go_len :: "slice \<Rightarrow> nat" where
  "go_len s = length (fst s)"

definition go_cap :: "slice \<Rightarrow> nat" where
  "go_cap s = length (fst s) + length (snd s)"

definition go_index :: "slice \<Rightarrow> nat \<Rightarrow> byte result" where
  "go_index s i = (if i < go_len s then Inr (fst s ! i) else Inl Panic)"

definition go_slice :: "slice \<Rightarrow> nat \<Rightarrow> nat \<Rightarrow> slice result" where
  "go_slice s lo hi =
     (if lo \<le> hi \<and> hi \<le> go_cap s
      then Inr (take (hi - lo) (drop lo (fst s @ snd s)), drop hi (fst s @ snd s))
      else Inl Panic)"

definition go_sliceFrom :: "slice \<Rightarrow> nat \<Rightarrow> slice result" where
  "go_sliceFrom s lo = go_slice s lo (go_len s)"

definition go_sliceTo :: "slice \<Rightarrow> nat \<Rightarrow> slice result" where
  "go_sliceTo s hi = go_slice s 0 hi"

text \<open>\<open>encoding/binary\<close>, big endian.  The readers index the last byte first, so a short
  argument panics.\<close>

definition putUint16 :: "16 word \<Rightarrow> byte list" where
  "putUint16 v = [ucast (drop_bit 8 v), ucast v]"

definition putUint32 :: "32 word \<Rightarrow> byte list" where
  "putUint32 v = [ucast (drop_bit 24 v), ucast (drop_bit 16 v), ucast (drop_bit 8 v), ucast v]"

definition putUint64 :: "64 word \<Rightarrow> byte list" where
  "putUint64 v = [ucast (drop_bit 56 v), ucast (drop_bit 48 v), ucast (drop_bit 40 v),
     ucast (drop_bit 32 v), ucast (drop_bit 24 v), ucast (drop_bit 16 v),
     ucast (drop_bit 8 v), ucast v]"

definition Uint16 :: "byte list \<Rightarrow> 16 word result" where
  "Uint16 b = (if length b < 2 then Inl Panic
     else Inr (ucast (b ! 1) OR push_bit 8 (ucast (b ! 0))))"

definition Uint32 :: "byte list \<Rightarrow> 32 word result" where
  "Uint32 b = (if length b < 4 then Inl Panic
     else Inr (ucast (b ! 3) OR push_bit 8 (ucast (b ! 2)) OR push_bit 16 (ucast (b ! 1))
       OR push_bit 24 (ucast (b ! 0))))"

definition Uint64 :: "byte list \<Rightarrow> 64 word result" where
  "Uint64 b = (if length b < 8 then Inl Panic
     else Inr (ucast (b ! 7) OR push_bit 8 (ucast (b ! 6)) OR push_bit 16 (ucast (b ! 5))
       OR push_bit 24 (ucast (b ! 4)) OR push_bit 32 (ucast (b ! 3))
       OR push_bit 40 (ucast (b ! 2)) OR push_bit 48 (ucast (b ! 1))
       OR push_bit 56 (ucast (b ! 0))))"

text \<open>
  \<open>sort.Sort\<close> rearranges a collection through its \<open>Swap\<close> until no element is \<open>Less\<close>
  than one before it.  It is not stable: the order in which it leaves elements that
  compare equal is not specified.  The model therefore does not fix the sorting function:
  it is a parameter \<open>srt\<close> of every function that sorts, and \<open>sorter key srt\<close> states
  what \<open>sort.Sort\<close> promises for a collection ordered by \<open>key\<close>, that the result is a
  rearrangement of the argument in ascending order of the keys.
\<close>

definition sorter :: "('a \<Rightarrow> 'k :: linorder) \<Rightarrow> ('a list \<Rightarrow> 'a list) \<Rightarrow> bool" where
  "sorter key srt = (\<forall>xs. mset (srt xs) = mset xs \<and> sorted (map key (srt xs)))"

section \<open>The codec (msgs.go)\<close>

subsection \<open>56-bit offsets\<close>

text \<open>
  \<open>sevenByteOffset\<close> writes the offset as eight big-endian bytes into a fresh
  \<open>bytes.Buffer\<close> (a write that cannot fail) and cuts off the most significant byte;
  \<open>uintOffset\<close> pads its argument with a leading zero byte and reads it as a
  \<open>uint64\<close>.
\<close>

definition sevenByteOffset :: "64 word \<Rightarrow> byte list result" where
  "sevenByteOffset offset = Inr (drop 1 (putUint64 offset))"

definition uintOffset :: "byte list \<Rightarrow> 64 word result" where
  "uintOffset seven = Uint64 (0 # seven)"

definition maxFileOffset :: "64 word" where
  "maxFileOffset = 2 ^ 56 - 1"

subsection \<open>Options and the message header\<close>

record msgOption =
  otype :: byte
  ovalue :: "byte list"
  olength :: nat

definition option_UnmarshalBinary :: "slice \<Rightarrow> msgOption result" where
  "option_UnmarshalBinary data =
     (if go_len data < 2 then Inl OptionTooShort
      else andThen (go_index data 0) (\<lambda>t.
           andThen (go_index data 1) (\<lambda>valueLen.
             let l = 2 + unat valueLen in
             if go_len data < l then Inl (DataSliceTooSmall l (go_len data))
             else andThen (go_slice data 2 l) (\<lambda>v.
               Inr \<lparr>otype = t, ovalue = fst v, olength = l\<rparr>))))"

definition option_MarshalBinary :: "msgOption \<Rightarrow> byte list result" where
  "option_MarshalBinary o' = Inr (otype o' # of_nat (length (ovalue o')) # ovalue o')"

record msgHeader =
  version :: byte
  msgType :: byte
  ackNum :: byte
  optionLen :: byte
  options :: "msgOption list"
  hdrLen :: nat

fun marshalOptions :: "msgOption list \<Rightarrow> byte list \<Rightarrow> byte list result" where
  "marshalOptions [] buf = Inr buf"
| "marshalOptions (o' # os) buf =
     andThen (option_MarshalBinary o') (\<lambda>ob. marshalOptions os (buf @ ob))"

definition msgHeader_MarshalBinary :: "msgHeader \<Rightarrow> byte list result" where
  "msgHeader_MarshalBinary s =
     (let vt = push_bit 4 (version s) XOR msgType s
      in marshalOptions (options s) ([vt] @ [msgHeader.ackNum s] @ [optionLen s]))"

text \<open>The option loop of \<open>msgHeader.UnmarshalBinary\<close>: \<open>k\<close> options are still to be
  read from \<open>lens\<close>.\<close>

fun unmarshalOptions :: "nat \<Rightarrow> slice \<Rightarrow> msgHeader \<Rightarrow> msgHeader result" where
  "unmarshalOptions 0 lens s = Inr s"
| "unmarshalOptions (Suc k) lens s =
     andThen (option_UnmarshalBinary lens) (\<lambda>o'.
     andThen (go_sliceFrom lens (olength o')) (\<lambda>lens'.
       unmarshalOptions k lens'
         (s\<lparr>options := options s @ [o'], hdrLen := hdrLen s + olength o'\<rparr>)))"

definition msgHeader_UnmarshalBinary :: "slice \<Rightarrow> msgHeader result" where
  "msgHeader_UnmarshalBinary data =
     (if go_len data < 2 then Inl MsgHeaderTooShort
      else andThen (go_index data 0) (\<lambda>vt.
           andThen (go_index data 1) (\<lambda>an.
           andThen (go_index data 2) (\<lambda>ol.
           andThen (go_sliceFrom data 3) (\<lambda>lens.
             unmarshalOptions (unat ol) lens
               \<lparr>version = drop_bit 4 (vt AND 0xF0), msgType = vt AND 0x0F,
                msgHeader.ackNum = an, optionLen = ol, options = [], hdrLen = 3\<rparr>)))))"

subsection \<open>ClientRequest\<close>

text \<open>A Go string is a sequence of bytes; \<open>[]byte(file.fileName)\<close> and
  \<open>string(bytes)\<close> copy them unchanged.\<close>

record fileDescriptor =
  offset :: "64 word"
  fileName :: "byte list"

record clientRequest =
  maxTransmissionRate :: "32 word"
  files :: "fileDescriptor list"

fun marshalFiles :: "fileDescriptor list \<Rightarrow> byte list \<Rightarrow> byte list result" where
  "marshalFiles [] buf = Inr buf"
| "marshalFiles (file # rest) buf =
     (if fileDescriptor.offset file > maxFileOffset then Inl FileOffsetTooBig
      else andThen (sevenByteOffset (fileDescriptor.offset file)) (\<lambda>sb.
             let pathBin = fileName file
             in marshalFiles rest (buf @ sb @ putUint16 (of_nat (length pathBin)) @ pathBin)))"

definition clientRequest_MarshalBinary :: "clientRequest \<Rightarrow> byte list result" where
  "clientRequest_MarshalBinary s =
     marshalFiles (files s)
       (putUint32 (clientRequest.maxTransmissionRate s) @ putUint16 (of_nat (length (files s))))"

text \<open>The file loop of \<open>clientRequest.UnmarshalBinary\<close>, with \<open>k\<close> descriptors still to
  be read.  \<open>pathLen\<close> is a \<open>uint16\<close>, so \<open>9+pathLen\<close> is computed modulo \<open>2^16\<close>.\<close>

fun unmarshalFiles :: "nat \<Rightarrow> slice \<Rightarrow> fileDescriptor list \<Rightarrow> fileDescriptor list result" where
  "unmarshalFiles 0 dataLens fs = Inr fs"
| "unmarshalFiles (Suc k) dataLens fs =
     andThen (go_sliceTo dataLens 7) (\<lambda>s7.
     andThen (uintOffset (fst s7)) (\<lambda>off.
     andThen (go_slice dataLens 7 9) (\<lambda>s2.
     andThen (Uint16 (fst s2)) (\<lambda>pathLen.
     andThen (go_slice dataLens 9 (unat (9 + pathLen))) (\<lambda>nm.
     andThen (go_sliceFrom dataLens (unat (9 + pathLen))) (\<lambda>rest.
       unmarshalFiles k rest
         (fs @ [\<lparr>fileDescriptor.offset = off, fileName = fst nm\<rparr>])))))))"

definition clientRequest_UnmarshalBinary :: "slice \<Rightarrow> clientRequest result" where
  "clientRequest_UnmarshalBinary data =
     andThen (go_sliceTo data 4) (\<lambda>s4.
     andThen (Uint32 (fst s4)) (\<lambda>rate.
     andThen (go_slice data 4 6) (\<lambda>s2.
     andThen (Uint16 (fst s2)) (\<lambda>numFiles.
       if numFiles = 0 then Inr \<lparr>clientRequest.maxTransmissionRate = rate, files = []\<rparr>
       else andThen (go_sliceFrom data 6) (\<lambda>dataLens.
            andThen (unmarshalFiles (unat numFiles) dataLens []) (\<lambda>fs.
              Inr \<lparr>clientRequest.maxTransmissionRate = rate, files = fs\<rparr>))))))"

subsection \<open>ServerMetadata\<close>

text \<open>\<open>checkSum\<close> is a \<open>[16]byte\<close>: a list that always has 16 elements.\<close>

record serverMetaData =
  ackNum :: byte
  status :: byte
  fileIndex :: "16 word"
  fsize :: "64 word"
  checkSum :: "byte list"

definition noErr :: byte where "noErr = 0"
definition fileNotExistent :: byte where "fileNotExistent = 1"
definition fileEmpty :: byte where "fileEmpty = 2"
definition accessDenied :: byte where "accessDenied = 3"

definition serverMetaData_MarshalBinary :: "serverMetaData \<Rightarrow> byte list result" where
  "serverMetaData_MarshalBinary s =
     Inr ([0] @ [serverMetaData.status s] @ putUint16 (serverMetaData.fileIndex s)
          @ putUint64 (fsize s) @ take 16 (checkSum s))"

definition serverMetaData_UnmarshalBinary :: "slice \<Rightarrow> serverMetaData result" where
  "serverMetaData_UnmarshalBinary d =
     andThen (go_index d 1) (\<lambda>st.
     andThen (go_slice d 2 4) (\<lambda>s2.
     andThen (Uint16 (fst s2)) (\<lambda>fi.
     andThen (go_slice d 4 12) (\<lambda>s8.
     andThen (Uint64 (fst s8)) (\<lambda>sz.
     andThen (go_slice d 12 28) (\<lambda>cs.
       Inr \<lparr>serverMetaData.ackNum = 0, serverMetaData.status = st,
            serverMetaData.fileIndex = fi, fsize = sz, checkSum = fst cs\<rparr>))))))"

subsection \<open>ServerPayload\<close>

record serverPayload =
  fileIndex :: "16 word"
  ackNumber :: byte
  offset :: "64 word"
  data :: "byte list"

definition serverPayload_MarshalBinary :: "serverPayload \<Rightarrow> byte list result" where
  "serverPayload_MarshalBinary s =
     andThen (sevenByteOffset (serverPayload.offset s)) (\<lambda>sb.
       Inr (putUint16 (serverPayload.fileIndex s) @ sb @ serverPayload.data s))"

definition serverPayload_UnmarshalBinary :: "slice \<Rightarrow> serverPayload result" where
  "serverPayload_UnmarshalBinary d =
     andThen (go_slice d 0 2) (\<lambda>s2.
     andThen (Uint16 (fst s2)) (\<lambda>fi.
     andThen (go_slice d 2 9) (\<lambda>s7.
     andThen (uintOffset (fst s7)) (\<lambda>off.
       if go_len d > 9
       then andThen (go_sliceFrom d 9) (\<lambda>rest.
              Inr \<lparr>serverPayload.fileIndex = fi, serverPayload.ackNumber = 0,
                   serverPayload.offset = off, data = fst rest\<rparr>)
       else Inr \<lparr>serverPayload.fileIndex = fi, serverPayload.ackNumber = 0,
                 serverPayload.offset = off, data = []\<rparr>))))"

subsection \<open>ClientAck\<close>

record resendEntry =
  fileIndex :: "16 word"
  offset :: "64 word"
  rlength :: byte

record clientAck =
  ackNumber :: byte
  fileIndex :: "16 word"
  status :: byte
  maxTransmissionRate :: "32 word"
  offset :: "64 word"
  resendEntries :: "resendEntry list"

definition metaDataReceived :: byte where "metaDataReceived = 0"
definition metaDataMissing :: byte where "metaDataMissing = 1"

fun marshalEntries :: "resendEntry list \<Rightarrow> byte list \<Rightarrow> byte list result" where
  "marshalEntries [] buf = Inr buf"
| "marshalEntries (re # rest) buf =
     andThen (sevenByteOffset (resendEntry.offset re)) (\<lambda>sb.
       marshalEntries rest (buf @ putUint16 (resendEntry.fileIndex re) @ sb @ [rlength re]))"

definition clientAck_MarshalBinary :: "clientAck \<Rightarrow> byte list result" where
  "clientAck_MarshalBinary c =
     andThen (sevenByteOffset (clientAck.offset c)) (\<lambda>sb.
       marshalEntries (resendEntries c)
         (putUint16 (clientAck.fileIndex c) @ [clientAck.status c]
          @ putUint32 (clientAck.maxTransmissionRate c) @ sb))"

text \<open>
  The entry loop of \<open>clientAck.UnmarshalBinary\<close>:
  \<^verbatim>\<open>for i := 0; i < len(reBytes)/10; i++ { ...; reBytes = reBytes[10:] }\<close>.
  The bound \<open>len(reBytes)/10\<close> is evaluated again before every iteration, on the slice
  that the body has just shortened.
\<close>

function unmarshalEntries :: "nat \<Rightarrow> slice \<Rightarrow> resendEntry list \<Rightarrow> resendEntry list result" where
  "unmarshalEntries i reBytes res =
     (if i < go_len reBytes div 10
      then andThen (go_sliceTo reBytes 2) (\<lambda>s2.
           andThen (Uint16 (fst s2)) (\<lambda>fi.
           andThen (go_slice reBytes 2 9) (\<lambda>s7.
           andThen (uintOffset (fst s7)) (\<lambda>off.
           andThen (go_index reBytes 9) (\<lambda>l.
           andThen (go_sliceFrom reBytes 10) (\<lambda>rest.
             unmarshalEntries (i + 1) rest
               (res @ [\<lparr>resendEntry.fileIndex = fi, resendEntry.offset = off,
                        rlength = l\<rparr>])))))))
      else Inr res)"
  by pat_completeness auto
termination
proof (relation "measure (\<lambda>(i, reBytes, res). go_len reBytes)", goal_cases)
  case 1
  show ?case by simp
next
  case (2 i reBytes res s2 fi s7 off l rest)
  then show ?case
    by (auto simp: go_sliceFrom_def go_slice_def go_len_def split: if_splits)
qed

declare unmarshalEntries.simps [simp del]

definition clientAck_UnmarshalBinary :: "slice \<Rightarrow> clientAck result" where
  "clientAck_UnmarshalBinary d =
     andThen (go_slice d 0 2) (\<lambda>s2.
     andThen (Uint16 (fst s2)) (\<lambda>fi.
     andThen (go_index d 2) (\<lambda>st.
     andThen (go_slice d 3 7) (\<lambda>s4.
     andThen (Uint32 (fst s4)) (\<lambda>rate.
     andThen (go_slice d 7 14) (\<lambda>s7.
     andThen (uintOffset (fst s7)) (\<lambda>off.
       if go_len d > 14
       then andThen (go_sliceFrom d 14) (\<lambda>reBytes.
            andThen (unmarshalEntries 0 reBytes []) (\<lambda>res.
              Inr \<lparr>clientAck.ackNumber = 0, clientAck.fileIndex = fi,
                   clientAck.status = st, clientAck.maxTransmissionRate = rate,
                   clientAck.offset = off, resendEntries = res\<rparr>))
       else Inr \<lparr>clientAck.ackNumber = 0, clientAck.fileIndex = fi,
                 clientAck.status = st, clientAck.maxTransmissionRate = rate,
                 clientAck.offset = off, resendEntries = []\<rparr>)))))))"

subsection \<open>CloseConnection\<close>

record closeConnection =
  reason :: "16 word"

definition closeConnection_MarshalBinary :: "closeConnection \<Rightarrow> byte list result" where
  "closeConnection_MarshalBinary c = Inr (putUint16 (reason c))"

definition closeConnection_UnmarshalBinary :: "slice \<Rightarrow> closeConnection result" where
  "closeConnection_UnmarshalBinary d =
     andThen (go_sliceTo d 2) (\<lambda>s2.
     andThen (Uint16 (fst s2)) (\<lambda>r. Inr \<lparr>reason = r\<rparr>))"

subsection \<open>ClientAck in the earlier revision of the codec\<close>

text \<open>
  The sources hold a second, earlier revision of the codec, with exported type names.  Its
  \<open>ClientAck\<close> carries the ack number in the body, and in the loop over the resend
  entries its \<open>MarshalBinary\<close> encodes \<open>c.offset\<close>, the offset of the ack, for every
  entry.  The entry loop of its \<open>UnmarshalBinary\<close> is the one above.
\<close>

fun marshalEntries0 :: "64 word \<Rightarrow> resendEntry list \<Rightarrow> byte list \<Rightarrow> byte list result" where
  "marshalEntries0 cOffset [] buf = Inr buf"
| "marshalEntries0 cOffset (re # rest) buf =
     andThen (sevenByteOffset cOffset) (\<lambda>sb.
       marshalEntries0 cOffset rest
         (buf @ putUint16 (resendEntry.fileIndex re) @ sb @ [rlength re]))"

definition ClientAck_MarshalBinary :: "clientAck \<Rightarrow> byte list result" where
  "ClientAck_MarshalBinary c =
     andThen (sevenByteOffset (clientAck.offset c)) (\<lambda>sb.
       marshalEntries0 (clientAck.offset c) (resendEntries c)
         ([clientAck.ackNumber c] @ putUint16 (clientAck.fileIndex c) @ [clientAck.status c]
          @ putUint32 (clientAck.maxTransmissionRate c) @ sb))"

definition ClientAck_UnmarshalBinary :: "slice \<Rightarrow> clientAck result" where
  "ClientAck_UnmarshalBinary d =
     andThen (go_index d 0) (\<lambda>an.
     andThen (go_slice d 1 3) (\<lambda>s2.
     andThen (Uint16 (fst s2)) (\<lambda>fi.
     andThen (go_index d 3) (\<lambda>st.
     andThen (go_slice d 4 8) (\<lambda>s4.
     andThen (Uint32 (fst s4)) (\<lambda>rate.
     andThen (go_slice d 8 15) (\<lambda>s7.
     andThen (uintOffset (fst s7)) (\<lambda>off.
       if go_len d > 15
       then andThen (go_sliceFrom d 15) (\<lambda>reBytes.
            andThen (unmarshalEntries 0 reBytes []) (\<lambda>res.
              Inr \<lparr>clientAck.ackNumber = an, clientAck.fileIndex = fi,
                   clientAck.status = st, clientAck.maxTransmissionRate = rate,
                   clientAck.offset = off, resendEntries = res\<rparr>))
       else Inr \<lparr>clientAck.ackNumber = an, clientAck.fileIndex = fi,
                 clientAck.status = st, clientAck.maxTransmissionRate = rate,
                 clientAck.offset = off, resendEntries = []\<rparr>))))))))"

section \<open>The datagram transport (connection.go)\<close>

definition msgClientRequest :: byte where "msgClientRequest = 0"
definition msgServerMetadata :: byte where "msgServerMetadata = 1"
definition msgServerPayload :: byte where "msgServerPayload = 2"
definition msgClientAck :: byte where "msgClientAck = 3"
definition msgClose :: byte where "msgClose = 4"

text \<open>The values that \<open>sendTo\<close> tells apart in its type switch; \<open>OtherMessage\<close> is any
  other \<open>encoding.BinaryMarshaler\<close>.\<close>

datatype message =
    ClientRequest clientRequest
  | ClientAck clientAck
  | ServerMetadata serverMetaData
  | ServerPayload serverPayload
  | CloseConnection closeConnection
  | OtherMessage

fun MarshalBinary :: "message \<Rightarrow> byte list result" where
  "MarshalBinary (ClientRequest v) = clientRequest_MarshalBinary v"
| "MarshalBinary (ClientAck v) = clientAck_MarshalBinary v"
| "MarshalBinary (ServerMetadata v) = serverMetaData_MarshalBinary v"
| "MarshalBinary (ServerPayload v) = serverPayload_MarshalBinary v"
| "MarshalBinary (CloseConnection v) = closeConnection_MarshalBinary v"
| "MarshalBinary OtherMessage = Inl UnknownMsgType"

text \<open>\<open>sendTo\<close> returns the bytes it hands to the writer in one \<open>Write\<close> (header, then
  body); the writer itself is taken to succeed.\<close>

fun sendToHeader :: "message \<Rightarrow> msgHeader result" where
  "sendToHeader (ClientRequest v) =
     Inr \<lparr>version = 1, msgType = msgClientRequest, msgHeader.ackNum = 0, optionLen = 0,
          options = [], hdrLen = 0\<rparr>"
| "sendToHeader (ClientAck v) =
     Inr \<lparr>version = 1, msgType = msgClientAck, msgHeader.ackNum = clientAck.ackNumber v,
          optionLen = 0, options = [], hdrLen = 0\<rparr>"
| "sendToHeader (ServerMetadata v) =
     Inr \<lparr>version = 1, msgType = msgServerMetadata, msgHeader.ackNum = 0, optionLen = 0,
          options = [], hdrLen = 0\<rparr>"
| "sendToHeader (ServerPayload v) =
     Inr \<lparr>version = 1, msgType = msgServerPayload,
          msgHeader.ackNum = serverPayload.ackNumber v, optionLen = 0, options = [],
          hdrLen = 0\<rparr>"
| "sendToHeader (CloseConnection v) =
     Inr \<lparr>version = 1, msgType = msgClose, msgHeader.ackNum = 0, optionLen = 0,
          options = [], hdrLen = 0\<rparr>"
| "sendToHeader OtherMessage = Inl UnknownMsgType"

definition sendTo :: "message \<Rightarrow> byte list result" where
  "sendTo msg =
     andThen (sendToHeader msg) (\<lambda>header.
     andThen (msgHeader_MarshalBinary header) (\<lambda>hs.
     andThen (MarshalBinary msg) (\<lambda>bs. Inr (hs @ bs))))"

record packet =
  os :: "msgOption list"
  data :: slice
  ackNum :: byte

text \<open>
  One round of the loop of \<open>udpConnection.receive\<close> for a datagram that is not dropped:
  the datagram is read into a fresh zeroed buffer of \<open>bufferSize\<close> bytes
  (\<open>ReadFromUDP\<close> stores at most that many and returns their number \<open>n\<close>), the header is
  decoded from the whole buffer, and the handler gets \<open>msg[header.hdrLen:n]\<close>.
\<close>

definition receive :: "nat \<Rightarrow> byte list \<Rightarrow> (msgHeader \<times> packet) result" where
  "receive bufferSize datagram =
     (let n = min (length datagram) bufferSize;
          msg = (take n datagram @ replicate (bufferSize - n) 0, [])
      in andThen (msgHeader_UnmarshalBinary msg) (\<lambda>header.
         andThen (go_slice msg (hdrLen header) n) (\<lambda>d.
           Inr (header, \<lparr>os = options header, data = d,
                         packet.ackNum = msgHeader.ackNum header\<rparr>))))"

definition bufferSize :: nat where "bufferSize = 2048"

text \<open>What \<open>Server.handleACK\<close> makes of a packet before it looks up the session: the body
  is unmarshalled and the ack number is taken from the header.  (server.go writes the type
  names with a capital letter; the decoder is the one of the codec above.)\<close>

definition handleACK :: "packet \<Rightarrow> clientAck result" where
  "handleACK p =
     andThen (clientAck_UnmarshalBinary (packet.data p)) (\<lambda>ack.
       Inr (ack\<lparr>clientAck.ackNumber := packet.ackNum p\<rparr>))"

section \<open>The gap queue (queue.go)\<close>

record chunkQueue =
  items :: "serverPayload list"
  qmax :: "64 word"
  fileIndex :: "16 word"

definition newChunkQueue :: "16 word \<Rightarrow> chunkQueue" where
  "newChunkQueue fi = \<lparr>items = [], qmax = 0, chunkQueue.fileIndex = fi\<rparr>"

definition Len :: "chunkQueue \<Rightarrow> nat" where
  "Len c = length (items c)"

definition Less :: "chunkQueue \<Rightarrow> nat \<Rightarrow> nat \<Rightarrow> bool" where
  "Less c i j = (serverPayload.offset (items c ! i) < serverPayload.offset (items c ! j))"

definition Swap :: "chunkQueue \<Rightarrow> nat \<Rightarrow> nat \<Rightarrow> chunkQueue" where
  "Swap c i j = c\<lparr>items := (items c)[i := items c ! j, j := items c ! i]\<rparr>"

definition Push :: "chunkQueue \<Rightarrow> serverPayload \<Rightarrow> chunkQueue" where
  "Push c payload = c\<lparr>items := items c @ [payload]\<rparr>"

definition Pop :: "chunkQueue \<Rightarrow> (serverPayload \<times> chunkQueue) result" where
  "Pop c = (if items c = [] then Inl Panic
            else Inr (last (items c), c\<lparr>items := butlast (items c)\<rparr>))"


subsection \<open>\<open>container/heap\<close> and \<open>sort\<close> over the queue\<close>

text \<open>
  \<open>up\<close>, \<open>down\<close>, \<open>heap.Init\<close>, \<open>heap.Push\<close> and \<open>heap.Pop\<close> follow the standard
  library, instantiated with the queue's \<open>Len\<close>, \<open>Less\<close>, \<open>Swap\<close>, \<open>Push\<close> and \<open>Pop\<close>.
  Indices are natural numbers; the parent of \<open>0\<close> is \<open>0\<close>, as with Go's truncating
  \<open>(j - 1) / 2\<close>.
\<close>

function up :: "chunkQueue \<Rightarrow> nat \<Rightarrow> chunkQueue" where
  "up h j =
     (let i = (j - 1) div 2
      in if i = j \<or> \<not> Less h j i then h else up (Swap h i j) i)"
  by pat_completeness auto
termination
proof (relation "measure (\<lambda>(h, j). j)", goal_cases)
  case 1
  show ?case by simp
next
  case (2 h j i)
  then have "(j - 1) div 2 < j" by simp arith
  with 2 show ?case by simp
qed

declare up.simps [simp del]

function down :: "chunkQueue \<Rightarrow> nat \<Rightarrow> nat \<Rightarrow> chunkQueue" where
  "down h i n =
     (let j1 = 2 * i + 1
      in if j1 \<ge> n then h
         else let j = (if j1 + 1 < n \<and> Less h (j1 + 1) j1 then j1 + 1 else j1)
              in if \<not> Less h j i then h else down (Swap h i j) j n)"
  by pat_completeness auto
termination
proof (relation "measure (\<lambda>(h, i, n). n - i)", goal_cases)
  case 1
  show ?case by simp
next
  case (2 h i n j1 j)
  then have "i < j" "j < n" by (simp_all split: if_splits)
  then show ?case by simp
qed

declare down.simps [simp del]

text \<open>\<open>for i := n/2 - 1; i >= 0; i-- { down(h, i, n) }\<close>, with \<open>k = i + 1\<close>.\<close>

fun heapInitLoop :: "chunkQueue \<Rightarrow> nat \<Rightarrow> nat \<Rightarrow> chunkQueue" where
  "heapInitLoop h 0 n = h"
| "heapInitLoop h (Suc i) n = heapInitLoop (down h i n) i n"

definition heap_Init :: "chunkQueue \<Rightarrow> chunkQueue" where
  "heap_Init h = heapInitLoop h (Len h div 2) (Len h)"

definition heap_Push :: "chunkQueue \<Rightarrow> serverPayload \<Rightarrow> chunkQueue" where
  "heap_Push h x = (let h' = Push h x in up h' (Len h' - 1))"

definition heap_Pop :: "chunkQueue \<Rightarrow> (serverPayload \<times> chunkQueue) result" where
  "heap_Pop h =
     (if Len h = 0 then Inl Panic
      else let n = Len h - 1 in Pop (down (Swap h 0 n) 0 n))"

text \<open>\<open>sort.Sort(c)\<close> orders the items by \<open>Less\<close>, that is by offset; \<open>srt\<close> is the
  rearrangement that it makes of them (a \<open>sorter\<close> by offset).\<close>

definition sort_Sort :: "(serverPayload list \<Rightarrow> serverPayload list) \<Rightarrow> chunkQueue \<Rightarrow> chunkQueue" where
  "sort_Sort srt c = c\<lparr>items := srt (items c)\<rparr>"


subsection \<open>\<open>Gaps\<close> and \<open>Top\<close>\<close>

text \<open>The inner loop of \<open>Gaps\<close>, which steps over received chunks that follow the entry
  just emitted; it never steps over the last item.\<close>

function gapsSkip :: "chunkQueue \<Rightarrow> 64 word \<Rightarrow> nat \<Rightarrow> 64 word \<times> nat" where
  "gapsSkip c first i =
     (if int i < int (Len c) - 1
      then if serverPayload.offset (items c ! i) > first then (first, i)
           else gapsSkip c (first + 1) (i + 1)
      else (first, i))"
  by pat_completeness auto
termination
  by (relation "measure (\<lambda>(c, first, i). Len c - i)") auto

declare gapsSkip.simps [simp del]

lemma gapsSkip_index: "i \<le> snd (gapsSkip c first i)"
proof (induction c first i rule: gapsSkip.induct)
  case (1 c first i)
  show ?case
  proof (cases "int i < int (Len c) - 1 \<and> \<not> serverPayload.offset (items c ! i) > first")
    case True
    then have "Suc i \<le> snd (gapsSkip c (first + 1) (i + 1))"
      using "1.IH" by simp
    with True show ?thesis
      by (subst gapsSkip.simps) simp
  next
    case False
    then show ?thesis
      by (subst gapsSkip.simps) auto
  qed
qed

lemma split_decreases:
  fixes x first :: "64 word"
  assumes "255 < x - first"
  shows "unat (x - (first + 255 + 1)) < unat (x - first)"
proof -
  have "(256 :: 64 word) \<le> x - first"
    using assms by (simp add: word_less_nat_alt word_le_nat_alt)
  then have "unat (x - first - 256) = unat (x - first) - 256"
    by (simp add: unat_sub)
  moreover have "255 < unat (x - first)"
    using assms by (simp add: word_less_nat_alt)
  ultimately have "unat (x - first - 256) < unat (x - first)"
    by simp
  moreover have "x - (first + 255 + 1) = x - first - 256"
    by simp
  ultimately show ?thesis by (simp only:)
qed

text \<open>
  The outer loop of \<open>Gaps\<close> on the sorted queue.  Each round appends one entry to the
  result; the entries are listed here in the order in which they are appended.
  \<open>length\<close> and \<open>first\<close> are \<open>uint64\<close>: the subtraction and the additions wrap around.
\<close>

function gapsLoop :: "chunkQueue \<Rightarrow> 64 word \<Rightarrow> nat \<Rightarrow> resendEntry list" where
  "gapsLoop c first i =
     (if i < Len c
      then if serverPayload.offset (items c ! i) - first > 255
           then \<lparr>resendEntry.fileIndex = chunkQueue.fileIndex c, resendEntry.offset = first,
                 rlength = ucast (255 :: 64 word)\<rparr>
                # gapsLoop c (first + 255 + 1) i
           else \<lparr>resendEntry.fileIndex = chunkQueue.fileIndex c, resendEntry.offset = first,
                 rlength = ucast (serverPayload.offset (items c ! i) - first)\<rparr>
                # gapsLoop c
                    (fst (gapsSkip c (first + (serverPayload.offset (items c ! i) - first) + 1)
                            (i + 1)))
                    (snd (gapsSkip c (first + (serverPayload.offset (items c ! i) - first) + 1)
                            (i + 1)))
      else [])"
  by pat_completeness auto
termination
proof (relation "measures [\<lambda>(c, first, i). Len c - i,
                           \<lambda>(c, first, i). unat (serverPayload.offset (items c ! i) - first)]",
       goal_cases)
  case 1
  show ?case by simp
next
  case (2 c first i)
  then have "unat (serverPayload.offset (items c ! i) - (first + 255 + 1))
             < unat (serverPayload.offset (items c ! i) - first)"
    by (intro split_decreases)
  then show ?case by simp
next
  case (3 c first i)
  have "Suc i \<le> snd (gapsSkip c (first + (serverPayload.offset (items c ! i) - first) + 1) (i + 1))"
    using gapsSkip_index [of "i + 1"] by simp
  with 3 have "Len c - snd (gapsSkip c (first + (serverPayload.offset (items c ! i) - first) + 1) (i + 1))
      < Len c - i"
    by arith
  then show ?case by (simp add: case_prod_unfold)
qed

declare gapsLoop.simps [simp del]

text \<open>\<open>Gaps\<close> sorts the queue, computes the entries and, on return, restores the heap
  (\<open>defer heap.Init(c)\<close>); it yields the entries and the queue it leaves behind.\<close>

definition Gaps :: "(serverPayload list \<Rightarrow> serverPayload list) \<Rightarrow> chunkQueue \<Rightarrow> 64 word
    \<Rightarrow> resendEntry list \<times> chunkQueue" where
  "Gaps srt c from = (let c' = sort_Sort srt c in (gapsLoop c' from 0, heap_Init c'))"

text \<open>\<open>Top\<close> pops the root of the heap, reads its offset and, on return, pushes the item
  back (\<open>defer heap.Push(c, item)\<close>).\<close>

definition Top :: "chunkQueue \<Rightarrow> (64 word \<times> chunkQueue) result" where
  "Top c =
     (if Len c \<le> 0 then Inr (0, c)
      else andThen (heap_Pop c) (\<lambda>(item, c').
             Inr (serverPayload.offset item, heap_Push c' item)))"



section \<open>The server session (server.go)\<close>

subsection \<open>The producer: \<open>getResponse\<close>\<close>

text \<open>
  A file handler yields \<open>nil\<close> or an \<open>io.SectionReader\<close>, a window of \<open>Size()\<close> bytes on
  an \<open>io.ReaderAt\<close>.  The reader underneath is the function \<open>source\<close>: for the length of
  the buffer it is given and a position (counted from the start of the window) it yields
  the bytes it has read into the buffer and the error it returns, \<open>None\<close> for \<open>nil\<close>; any
  error other than \<open>io.EOF\<close> is \<open>ReadError\<close>.  \<open>ReadAt\<close> follows
  \<open>io.SectionReader.ReadAt\<close>: at or behind the end of the window it returns \<open>io.EOF\<close>
  without reading; a buffer that reaches beyond the end is cut off at the end, and a read
  into it that succeeds returns \<open>io.EOF\<close>; any other read is the one of the reader
  underneath.  The chunk counter \<open>off\<close> is an \<open>int64\<close> that only grows from 0; it is a
  natural number here, the size of a window being below \<open>2^63\<close>.
\<close>

datatype ioError = EOF | ReadError

type_synonym readerAt = "nat \<Rightarrow> nat \<Rightarrow> byte list \<times> ioError option"

record sectionReader =
  source :: readerAt
  Size :: nat

type_synonym fileHandler = "byte list \<Rightarrow> 64 word \<Rightarrow> sectionReader option"

definition ReadAt :: "sectionReader \<Rightarrow> nat \<Rightarrow> nat \<Rightarrow> byte list \<times> ioError option" where
  "ReadAt s n off =
     (if off \<ge> Size s then ([], Some EOF)
      else if n > Size s - off
           then (case source s (Size s - off) off of
                   (bs, err) \<Rightarrow> (bs, if err = None then Some EOF else err))
           else source s n off)"

datatype emitted = Payload serverPayload | Metadata serverMetaData

text \<open>
  The producer looks at the session in two places: it calls \<open>c.cleaner.closed()\<close> before
  each file, and each send of a payload is a \<open>select\<close> with the case \<open><-closeChan\<close>.  The
  looks of a run are numbered from 0 in the order in which they happen, and \<open>sees t\<close> tells
  whether look \<open>t\<close> finds the session closed: \<open>closed()\<close> returns true, or the \<open>select\<close>
  takes the case \<open><-closeChan\<close>, as it can once the cleaner has notified the channel.
  Every run of the producer is the run for some \<open>sees\<close>; in a session that is not closed
  while the producer runs, no look finds it closed.  A send on the payload or on the
  metadata channel that is not interrupted by the close is taken to complete (the scheduler
  drains both channels); the result of a run lists the messages sent, in order.
  \<open>md5sum\<close> stands for the digest that the hasher returns for the bytes written to it (16
  bytes for MD5); it is a parameter of the model.
\<close>

text \<open>
  The read loop for one file: \<open>t\<close> is the number of the next look, \<open>off\<close> counts the
  chunks read so far and \<open>hashed\<close> are the bytes written to the hasher.  The result holds
  the payloads sent on the payload channel, in order, the bytes hashed, the number of the
  next look, and whether the loop was left through \<open>case <-closeChan: return\<close>.  A payload
  is sent for every read, whatever its error; the loop ends after the read that returned
  \<open>io.EOF\<close>.
\<close>

record readResult =
  payloads :: "serverPayload list"
  written :: "byte list"
  looks :: nat
  stopped :: bool

function readChunks :: "(nat \<Rightarrow> bool) \<Rightarrow> 16 word \<Rightarrow> sectionReader \<Rightarrow> nat \<Rightarrow> nat \<Rightarrow> byte list
    \<Rightarrow> readResult" where
  "readChunks sees index sr t off hashed =
     (case ReadAt sr 1024 (1024 * off) of
        (buf, err) \<Rightarrow>
          if sees t
          then \<lparr>payloads = [], written = hashed @ buf, looks = t + 1, stopped = True\<rparr>
          else if err = Some EOF
          then \<lparr>payloads = [\<lparr>serverPayload.fileIndex = index, serverPayload.ackNumber = 0,
                              serverPayload.offset = of_nat off, data = buf\<rparr>],
                written = hashed @ buf, looks = t + 1, stopped = False\<rparr>
          else (let rest = readChunks sees index sr (t + 1) (off + 1) (hashed @ buf)
                in rest\<lparr>payloads := \<lparr>serverPayload.fileIndex = index,
                                         serverPayload.ackNumber = 0,
                                         serverPayload.offset = of_nat off, data = buf\<rparr>
                                        # payloads rest\<rparr>))"
  by pat_completeness auto
termination
  by (relation "measure (\<lambda>(sees, index, sr, t, off, hashed). Size sr - 1024 * off)")
     (auto simp: ReadAt_def split: if_splits prod.splits)

declare readChunks.simps [simp del]

text \<open>The body of the loop over the files, after the check of \<open>closed()\<close>, for the file
  with the given index: the messages sent, the number of the next look, and whether the
  producer has returned.\<close>

definition fileResponse :: "(nat \<Rightarrow> bool) \<Rightarrow> (byte list \<Rightarrow> byte list) \<Rightarrow> 16 word
    \<Rightarrow> sectionReader option \<Rightarrow> nat \<Rightarrow> emitted list \<times> nat \<times> bool" where
  "fileResponse sees md5sum index sr t =
     (case sr of
        None \<Rightarrow>
          ([Metadata \<lparr>serverMetaData.ackNum = 0, serverMetaData.status = fileNotExistent,
                      serverMetaData.fileIndex = index, fsize = 0,
                      checkSum = replicate 16 0\<rparr>], t, False)
      | Some s \<Rightarrow>
          if Size s = 0
          then ([Metadata \<lparr>serverMetaData.ackNum = 0, serverMetaData.status = fileEmpty,
                           serverMetaData.fileIndex = index, fsize = 0,
                           checkSum = replicate 16 0\<rparr>], t, False)
          else (let res = readChunks sees index s t 0 []
                in if stopped res then (map Payload (payloads res), looks res, True)
                   else (map Payload (payloads res) @
                         [Metadata \<lparr>serverMetaData.ackNum = 0, serverMetaData.status = 0,
                                    serverMetaData.fileIndex = index,
                                    fsize = of_nat (Size s),
                                    checkSum = take 16 (md5sum (written res))\<rparr>],
                         looks res, False)))"

text \<open>\<^verbatim>\<open>for _, fr := range srs\<close>, \<open>i\<close> being the index of the first reader left and \<open>t\<close>
  the number of the next look.\<close>

fun responseLoop :: "(nat \<Rightarrow> bool) \<Rightarrow> (byte list \<Rightarrow> byte list) \<Rightarrow> nat \<Rightarrow> nat
    \<Rightarrow> sectionReader option list \<Rightarrow> emitted list" where
  "responseLoop sees md5sum t i [] = []"
| "responseLoop sees md5sum t i (sr # rest) =
     (if sees t then []
      else case fileResponse sees md5sum (of_nat i) sr (t + 1) of
             (out, t', returned) \<Rightarrow>
               if returned then out
               else out @ responseLoop sees md5sum t' (i + 1) rest)"

text \<open>\<open>getResponse\<close> asks the file handler for a reader for every requested file and then
  serves the readers in order.\<close>

definition getResponse :: "(nat \<Rightarrow> bool) \<Rightarrow> fileHandler \<Rightarrow> (byte list \<Rightarrow> byte list)
    \<Rightarrow> clientRequest \<Rightarrow> emitted list" where
  "getResponse sees fh md5sum req =
     responseLoop sees md5sum 0 0
       (map (\<lambda>fr. fh (fileName fr) (fileDescriptor.offset fr)) (files req))"

subsection \<open>The payload cache and the rescheduler\<close>

type_synonym payloadCache = "16 word \<rightharpoonup> (64 word \<rightharpoonup> serverPayload)"

definition saveToCache :: "payloadCache \<Rightarrow> serverPayload \<Rightarrow> payloadCache" where
  "saveToCache cache p =
     (let inner = (case cache (serverPayload.fileIndex p) of None \<Rightarrow> Map.empty | Some m \<Rightarrow> m)
      in cache(serverPayload.fileIndex p \<mapsto> inner(serverPayload.offset p \<mapsto> p)))"

definition getFromCache :: "payloadCache \<Rightarrow> 16 word \<Rightarrow> 64 word \<Rightarrow> serverPayload option" where
  "getFromCache cache file off = (case cache file of None \<Rightarrow> None | Some c \<Rightarrow> c off)"

lemma resend_decreases:
  fixes i :: "64 word" and l :: byte
  assumes "i < ucast l"
  shows "unat (ucast l :: 64 word) - unat (i + 1) < unat (ucast l :: 64 word) - unat i"
proof -
  have lt: "unat i < unat (ucast l :: 64 word)"
    using assms by (simp add: word_less_nat_alt)
  have "unat (ucast l :: 64 word) < 2 ^ 64"
    using unsigned_less [of "ucast l :: 64 word"] by simp
  with lt have "unat i + 1 < 2 ^ 64" by linarith
  then have "unat (i + 1) = unat i + 1"
    by (simp add: unat_word_ariths)
  with lt show ?thesis by simp
qed

text \<open>
  \<^verbatim>\<open>for i := uint64(0); i < uint64(re.length); i++\<close>: the payloads sent on the resend
  channel for one entry, up to the first offset that is not cached.
\<close>

function resendRun :: "payloadCache \<Rightarrow> resendEntry \<Rightarrow> 64 word \<Rightarrow> serverPayload list" where
  "resendRun cache re i =
     (if i < ucast (rlength re)
      then case getFromCache cache (resendEntry.fileIndex re) (resendEntry.offset re + i) of
             Some p \<Rightarrow> p # resendRun cache re (i + 1)
           | None \<Rightarrow> []
      else [])"
  by pat_completeness auto
termination
proof (relation "measure (\<lambda>(cache, re, i). unat (ucast (rlength re) :: 64 word) - unat i)",
       goal_cases)
  case 1
  show ?case by simp
next
  case (2 cache re i p)
  then have "unat (ucast (rlength re) :: 64 word) - unat (i + 1)
             < unat (ucast (rlength re) :: 64 word) - unat i"
    by (intro resend_decreases)
  then show ?case by simp
qed

declare resendRun.simps [simp del]

text \<open>
  The body of the loop over the sorted resend entries, for one entry that the rate check
  lets through: \<open>scheduled\<close> is \<open>resendScheduled\<close> (a set of file index and offset),
  \<open>metadata\<close> the set of files whose metadata is to be sent again.  It yields both sets
  and the payloads sent on the resend channel.
\<close>

definition rescheduleEntry :: "payloadCache \<Rightarrow> (16 word \<times> 64 word) set \<Rightarrow> 16 word set
    \<Rightarrow> resendEntry \<Rightarrow> (16 word \<times> 64 word) set \<times> 16 word set \<times> serverPayload list" where
  "rescheduleEntry cache scheduled metadata re =
     (let metadata' = (if rlength re = 0 then insert (resendEntry.fileIndex re) metadata
                       else metadata)
      in if (resendEntry.fileIndex re, resendEntry.offset re) \<notin> scheduled
         then (insert (resendEntry.fileIndex re, resendEntry.offset re) scheduled, metadata',
               (case getFromCache cache (resendEntry.fileIndex re) (resendEntry.offset re) of
                  Some p \<Rightarrow> (if rlength re = 0 then [p] else []) @ resendRun cache re 0
                | None \<Rightarrow> []))
         else (scheduled, metadata', []))"

text \<open>\<^verbatim>\<open>for i, re := range ack.resendEntries\<close>, with the cut at
  \<open>uint32(i) > ack.maxTransmissionRate\<close> when that rate is not zero.\<close>

fun rescheduleEntries :: "payloadCache \<Rightarrow> 32 word \<Rightarrow> nat \<Rightarrow> resendEntry list
    \<Rightarrow> (16 word \<times> 64 word) set \<Rightarrow> 16 word set
    \<Rightarrow> (16 word \<times> 64 word) set \<times> 16 word set \<times> serverPayload list" where
  "rescheduleEntries cache rate i [] scheduled metadata = (scheduled, metadata, [])"
| "rescheduleEntries cache rate i (re # rest) scheduled metadata =
     (if rate > 0 \<and> (of_nat i :: 32 word) > rate then (scheduled, metadata, [])
      else case rescheduleEntry cache scheduled metadata re of
             (scheduled', metadata', out) \<Rightarrow>
               (case rescheduleEntries cache rate (i + 1) rest scheduled' metadata' of
                  (scheduled'', metadata'', out') \<Rightarrow> (scheduled'', metadata'', out @ out')))"

text \<open>Modelled from the spec: the \<open>metaDataMissing\<close> field of the ack type that server.go
  uses, whose declaration is not among the sources; the spec gives it as bit 0 of the
  status byte.\<close>

definition ackMetaDataMissing :: "clientAck \<Rightarrow> bool" where
  "ackMetaDataMissing ack = bit (clientAck.status ack) 0"

text \<open>
  The rescheduler's reaction to one ack: the new \<open>resendScheduled\<close>, the payloads sent on
  the resend channel in order, and the set of metadata sent on the metadata channel (the
  order of a \<open>range\<close> over a map is not specified).  \<open>sort.Sort\<close> orders the entries by
  their \<open>Less\<close>, that is by offset; \<open>srt\<close> is the rearrangement that it makes of them (a
  \<open>sorter\<close> by offset).  The caches are those at the time of the ack; the scheduler only
  ever adds to them.
\<close>

definition reschedule :: "(resendEntry list \<Rightarrow> resendEntry list) \<Rightarrow> payloadCache
    \<Rightarrow> (16 word \<rightharpoonup> serverMetaData) \<Rightarrow> (16 word \<times> 64 word) set \<Rightarrow> clientAck
    \<Rightarrow> (16 word \<times> 64 word) set \<times> serverPayload list \<times> serverMetaData set" where
  "reschedule srt cache metadataCache scheduled ack =
     (let metadata = (if ackMetaDataMissing ack then {clientAck.fileIndex ack} else {});
          entries = srt (resendEntries ack);
          first = (if length entries \<le> 0
                   then (case getFromCache cache (clientAck.fileIndex ack) (clientAck.offset ack) of
                           Some p \<Rightarrow> [p] | None \<Rightarrow> [])
                   else [])
      in case rescheduleEntries cache (clientAck.maxTransmissionRate ack) 0 entries
                scheduled metadata of
           (scheduled', metadata', out) \<Rightarrow>
             (scheduled', first @ out, Option.these (metadataCache ` metadata')))"

definition resendDone :: "(16 word \<times> 64 word) set \<Rightarrow> serverPayload \<Rightarrow> (16 word \<times> 64 word) set" where
  "resendDone scheduled p =
     scheduled - {(serverPayload.fileIndex p, serverPayload.offset p)}"

subsection \<open>The cleaner\<close>

text \<open>
  A subscriber channel has capacity 1.  \<open>sent\<close> counts the notifications ever sent on it.
  Sending on a closed channel or closing it twice panics; a second send could find the
  buffer full and block, which the model reports as \<open>Blocked\<close>.
\<close>

datatype chanError = ChanPanic | Blocked

record chan =
  sent :: nat
  chClosed :: bool

definition chanSend :: "chan \<Rightarrow> chanError + chan" where
  "chanSend ch =
     (if chClosed ch then Inl ChanPanic
      else if sent ch \<ge> 1 then Inl Blocked
      else Inr (ch\<lparr>sent := sent ch + 1\<rparr>))"

definition chanClose :: "chan \<Rightarrow> chanError + chan" where
  "chanClose ch = (if chClosed ch then Inl ChanPanic else Inr (ch\<lparr>chClosed := True\<rparr>))"

record Cleaner =
  subs :: "chan list"
  closedState :: bool
  cbCalls :: nat

definition newCleaner :: Cleaner where
  "newCleaner = \<lparr>subs = [], closedState = False, cbCalls = 0\<rparr>"

text \<open>\<^verbatim>\<open>for _, sub := range c.subs { sub <- struct{}{}; close(sub) }\<close>\<close>

fun notifyAll :: "chan list \<Rightarrow> chanError + chan list" where
  "notifyAll [] = Inr []"
| "notifyAll (sub # rest) =
     (case chanSend sub of Inl e \<Rightarrow> Inl e
      | Inr sub1 \<Rightarrow>
          (case chanClose sub1 of Inl e \<Rightarrow> Inl e
           | Inr sub2 \<Rightarrow>
               (case notifyAll rest of Inl e \<Rightarrow> Inl e
                | Inr rest' \<Rightarrow> Inr (sub2 # rest'))))"

text \<open>Both operations hold \<open>closeLock\<close> from start to end, so each is one atomic step on
  the cleaner.  \<open>cbCalls\<close> counts the calls of the clean-up callback.\<close>

definition cleaner_close :: "Cleaner \<Rightarrow> chanError + Cleaner" where
  "cleaner_close c =
     (if closedState c then Inr c
      else case notifyAll (subs c) of Inl e \<Rightarrow> Inl e
           | Inr subs' \<Rightarrow> Inr (c\<lparr>subs := subs', closedState := True, cbCalls := cbCalls c + 1\<rparr>))"

text \<open>\<open>subscribe\<close> returns the position of the new channel in \<open>subs\<close> and the new state.\<close>

definition cleaner_subscribe :: "Cleaner \<Rightarrow> chanError + (nat \<times> Cleaner)" where
  "cleaner_subscribe c =
     (let new = \<lparr>sent = 0, chClosed = False\<rparr>
      in if closedState c
         then (case chanSend new of Inl e \<Rightarrow> Inl e
               | Inr new1 \<Rightarrow>
                   (case chanClose new1 of Inl e \<Rightarrow> Inl e
                    | Inr new2 \<Rightarrow> Inr (length (subs c), c\<lparr>subs := subs c @ [new2]\<rparr>)))
         else Inr (length (subs c), c\<lparr>subs := subs c @ [new]\<rparr>))"

datatype cleanerCall = Subscribe | Close

fun cleanerRun :: "cleanerCall list \<Rightarrow> Cleaner \<Rightarrow> chanError + Cleaner" where
  "cleanerRun [] c = Inr c"
| "cleanerRun (Subscribe # calls) c =
     (case cleaner_subscribe c of Inl e \<Rightarrow> Inl e | Inr (k, c') \<Rightarrow> cleanerRun calls c')"
| "cleanerRun (Close # calls) c =
     (case cleaner_close c of Inl e \<Rightarrow> Inl e | Inr c' \<Rightarrow> cleanerRun calls c')"

section \<open>Notions used in the results\<close>

text \<open>The heap order of \<open>container/heap\<close> (no item is smaller than its parent), the
  order in which \<open>sort.Sort\<close> leaves a queue, and the set of the offsets stored in a
  queue.\<close>

definition heapOrdered :: "chunkQueue \<Rightarrow> bool" where
  "heapOrdered h = list_all (\<lambda>j. \<not> Less h j ((j - 1) div 2)) [1..<Len h]"

definition sortedQueue :: "chunkQueue \<Rightarrow> bool" where
  "sortedQueue h = sorted (map serverPayload.offset (items h))"

definition offsets :: "chunkQueue \<Rightarrow> 64 word set" where
  "offsets c = set (map serverPayload.offset (items c))"

text \<open>
  A resend entry read as the claim reads it, as the run of the offsets \<open>offset\<close> through
  \<open>offset + length\<close>; \<open>covered\<close> lists the offsets of all runs of a result, in order.
\<close>

definition run :: "resendEntry \<Rightarrow> nat list" where
  "run e = [unat (resendEntry.offset e) ..<
            unat (resendEntry.offset e) + unat (rlength e) + 1]"

definition covered :: "resendEntry list \<Rightarrow> nat list" where
  "covered res = concat (map run res)"

text \<open>The state of the loop of \<open>Gaps\<close> before a round, as natural numbers: the offsets
  of the queue increase strictly, those before index \<open>i\<close> lie below \<open>first\<close>, and
  \<open>first\<close> is not beyond the item at \<open>i\<close>.\<close>

definition offs :: "chunkQueue \<Rightarrow> nat list" where
  "offs c = map (\<lambda>p. unat (serverPayload.offset p)) (items c)"

definition gapsInv :: "chunkQueue \<Rightarrow> 64 word \<Rightarrow> nat \<Rightarrow> bool" where
  "gapsInv c first i =
     (sorted_wrt (<) (offs c) \<and> i \<le> Len c
      \<and> (i < Len c \<longrightarrow> unat first \<le> offs c ! i)
      \<and> (\<forall>j < i. offs c ! j < unat first))"

text \<open>What the entries appended from such a state on achieve, for the received offsets
  \<open>S\<close> up to \<open>hi\<close> and the first offset \<open>lo\<close> not yet dealt with.\<close>

definition gapsPost :: "nat set \<Rightarrow> nat \<Rightarrow> nat \<Rightarrow> resendEntry list \<Rightarrow> bool" where
  "gapsPost S hi lo res =
     (sorted_wrt (<) (covered res)
      \<and> (\<forall>k \<in> set (covered res). lo \<le> k \<and> k \<le> hi)
      \<and> (\<forall>k. lo \<le> k \<and> k \<le> hi \<and> k \<notin> S \<longrightarrow> k \<in> set (covered res))
      \<and> (\<forall>e \<in> set res. \<forall>k \<in> set (run e). k \<in> S \<longrightarrow>
             k = unat (resendEntry.offset e) + unat (rlength e)))"

text \<open>
  For the rescheduler: the key under which \<open>resendScheduled\<close> holds a resend entry; the
  number of payloads that the rescheduler takes from the cache for an entry (the loop runs
  for \<open>i < length\<close>, and the branch for \<open>length == 0\<close> sends the one payload at
  \<open>offset\<close>); that these are all cached; and the payloads themselves, in order.
\<close>

definition entryKey :: "resendEntry \<Rightarrow> 16 word \<times> 64 word" where
  "entryKey re = (resendEntry.fileIndex re, resendEntry.offset re)"

definition resendCount :: "resendEntry \<Rightarrow> nat" where
  "resendCount re = (if rlength re = 0 then 1 else unat (rlength re))"

definition cachedRun :: "payloadCache \<Rightarrow> resendEntry \<Rightarrow> bool" where
  "cachedRun cache re =
     (\<forall>k < resendCount re.
        getFromCache cache (resendEntry.fileIndex re) (resendEntry.offset re + of_nat k) \<noteq> None)"

definition resent :: "payloadCache \<Rightarrow> resendEntry \<Rightarrow> serverPayload list" where
  "resent cache re =
     map (\<lambda>k. the (getFromCache cache (resendEntry.fileIndex re) (resendEntry.offset re + of_nat k)))
         [0 ..< resendCount re]"

text \<open>
  For the producer: what \<open>io.ReaderAt\<close> and \<open>int64\<close> promise of a reader (a read
  returns no more bytes than the buffer holds, and the size is below \<open>2^63\<close>); the payload
  that the producer makes of the read of chunk \<open>k\<close>; and what the producer is to emit for
  one requested file, given the reader that the file handler returned for it.  For a reader
  of a size above 0 these are payloads with the chunk offsets 0, 1, 2, ... in strictly
  increasing order, each with the file's index and the at most 1024 bytes that the read of
  its chunk returned, the last of them being the first whose read returned \<open>io.EOF\<close>, and
  then one metadata with status 0, the size, and the checksum of the bytes of the payloads.
\<close>

definition readerContract :: "sectionReader \<Rightarrow> bool" where
  "readerContract s = (Size s < 2 ^ 63 \<and> (\<forall>n off. length (fst (source s n off)) \<le> n))"

definition chunkAt :: "16 word \<Rightarrow> sectionReader \<Rightarrow> nat \<Rightarrow> serverPayload" where
  "chunkAt index s k =
     \<lparr>serverPayload.fileIndex = index, serverPayload.ackNumber = 0,
      serverPayload.offset = of_nat k, data = fst (ReadAt s 1024 (1024 * k))\<rparr>"

definition fileOutput :: "(byte list \<Rightarrow> byte list) \<Rightarrow> 16 word \<Rightarrow> sectionReader option
    \<Rightarrow> emitted list \<Rightarrow> bool" where
  "fileOutput md5sum index sr out =
     (case sr of
        None \<Rightarrow>
          out = [Metadata \<lparr>serverMetaData.ackNum = 0, serverMetaData.status = fileNotExistent,
                           serverMetaData.fileIndex = index, fsize = 0,
                           checkSum = replicate 16 0\<rparr>]
      | Some s \<Rightarrow>
          if Size s = 0
          then out = [Metadata \<lparr>serverMetaData.ackNum = 0, serverMetaData.status = fileEmpty,
                                serverMetaData.fileIndex = index, fsize = 0,
                                checkSum = replicate 16 0\<rparr>]
          else (\<exists>ps. out = map Payload ps @
                            [Metadata \<lparr>serverMetaData.ackNum = 0, serverMetaData.status = noErr,
                                       serverMetaData.fileIndex = index,
                                       fsize = of_nat (Size s),
                                       checkSum = take 16 (md5sum (concat (map serverPayload.data ps)))\<rparr>]
                  \<and> ps \<noteq> []
                  \<and> map serverPayload.offset ps = map of_nat [0 ..< length ps]
                  \<and> sorted_wrt (<) (map serverPayload.offset ps)
                  \<and> list_all (\<lambda>p. serverPayload.fileIndex p = index
                                   \<and> length (serverPayload.data p) \<le> 1024) ps
                  \<and> list_all (\<lambda>k. serverPayload.data (ps ! k) = fst (ReadAt s 1024 (1024 * k))
                                   \<and> (snd (ReadAt s 1024 (1024 * k)) = Some EOF)
                                       = (k = length ps - 1))
                       [0 ..< length ps]))"


text \<open>The cleaner's invariant: a channel holds one notification and is closed exactly
  when the cleaner is closed, and the callback has run once exactly then.\<close>

definition notified :: "Cleaner \<Rightarrow> bool" where
  "notified c =
     ((\<forall>ch \<in> set (subs c). sent ch = (if closedState c then 1 else 0)
                          \<and> chClosed ch = closedState c)
      \<and> cbCalls c = (if closedState c then 1 else 0))"

section \<open>Concrete inputs\<close>

text \<open>The acknowledgement of the scenario with lost middle chunks: two resend entries, for
  the chunks 1 and 3 of file 0.\<close>

definition ackScenario3 :: clientAck where
  "ackScenario3 =
     \<lparr>clientAck.ackNumber = 1, clientAck.fileIndex = 0, clientAck.status = 0,
      clientAck.maxTransmissionRate = 0, clientAck.offset = 0,
      resendEntries =
        [\<lparr>resendEntry.fileIndex = 0, resendEntry.offset = 1, rlength = 0\<rparr>,
         \<lparr>resendEntry.fileIndex = 0, resendEntry.offset = 3, rlength = 0\<rparr>]\<rparr>"

definition receivedChunk :: "64 word \<Rightarrow> serverPayload" where
  "receivedChunk off =
     \<lparr>serverPayload.fileIndex = 0, serverPayload.ackNumber = 0, serverPayload.offset = off,
      data = []\<rparr>"

definition queueScenario4 :: chunkQueue where
  "queueScenario4 =
     \<lparr>items = [receivedChunk 0, receivedChunk 300], qmax = 0, chunkQueue.fileIndex = 0\<rparr>"

definition queueSingle :: chunkQueue where
  "queueSingle = \<lparr>items = [receivedChunk 0], qmax = 0, chunkQueue.fileIndex = 0\<rparr>"

text \<open>The queue after \<open>heap.Push\<close> of the chunks 5, 9 and once more 5: the chunk 5 is
  stored twice, and the items are in heap order, not in ascending order.\<close>

definition queueDuplicate :: chunkQueue where
  "queueDuplicate =
     \<lparr>items = [receivedChunk 5, receivedChunk 9, receivedChunk 5], qmax = 0,
      chunkQueue.fileIndex = 0\<rparr>"

definition cachedChunk :: "64 word \<Rightarrow> serverPayload" where
  "cachedChunk off =
     \<lparr>serverPayload.fileIndex = 0, serverPayload.ackNumber = 0, serverPayload.offset = off,
      data = []\<rparr>"

text \<open>The payload cache that holds the chunks 0 through \<open>n\<close> of file 0, and an ack that
  asks for two ranges of that file, the later one first.\<close>

definition cacheUpTo :: "64 word \<Rightarrow> payloadCache" where
  "cacheUpTo n = [0 \<mapsto> (\<lambda>off. if off \<le> n then Some (cachedChunk off) else None)]"

definition ackTwoEntries :: clientAck where
  "ackTwoEntries =
     \<lparr>clientAck.ackNumber = 1, clientAck.fileIndex = 0, clientAck.status = 0,
      clientAck.maxTransmissionRate = 0, clientAck.offset = 10,
      resendEntries =
        [\<lparr>resendEntry.fileIndex = 0, resendEntry.offset = 8, rlength = 2\<rparr>,
         \<lparr>resendEntry.fileIndex = 0, resendEntry.offset = 5, rlength = 1\<rparr>]\<rparr>"

definition ackOneEntry :: clientAck where
  "ackOneEntry =
     \<lparr>clientAck.ackNumber = 1, clientAck.fileIndex = 0, clientAck.status = 0,
      clientAck.maxTransmissionRate = 0, clientAck.offset = 4,
      resendEntries = [\<lparr>resendEntry.fileIndex = 0, resendEntry.offset = 5, rlength = 1\<rparr>]\<rparr>"

text \<open>
  A file that is read without errors (a read that gets fewer bytes than the buffer holds
  returns \<open>io.EOF\<close>), the reader of the whole of it, a file handler that knows an empty
  file \<open>a\<close> and a file \<open>b\<close> of 1500 bytes, and a request for a file that the handler does
  not know and for these two.
\<close>

definition fileSource :: "byte list \<Rightarrow> readerAt" where
  "fileSource content n off =
     (let bs = take n (drop off content)
      in (bs, if length bs < n then Some EOF else None))"

definition fileReader :: "byte list \<Rightarrow> sectionReader" where
  "fileReader content = \<lparr>source = fileSource content, Size = length content\<rparr>"

definition handlerExample :: fileHandler where
  "handlerExample name off =
     (if name = [97] then Some (fileReader [])
      else if name = [98] then Some (fileReader (replicate 1500 7))
      else None)"

definition requestExample :: clientRequest where
  "requestExample =
     \<lparr>clientRequest.maxTransmissionRate = 0,
      files = [\<lparr>fileDescriptor.offset = 0, fileName = [120]\<rparr>,
               \<lparr>fileDescriptor.offset = 0, fileName = [97]\<rparr>,
               \<lparr>fileDescriptor.offset = 0, fileName = [98]\<rparr>]\<rparr>"

text \<open>What the producer sees of a session that stays open, and of a session that look
  number \<open>n\<close> finds closed; and a stand-in for the digest that tells apart what was hashed,
  the hashed bytes themselves.\<close>

definition openSession :: "nat \<Rightarrow> bool" where
  "openSession t = False"

definition closedAtLook :: "nat \<Rightarrow> nat \<Rightarrow> bool" where
  "closedAtLook n t = (t = n)"

definition digestExample :: "byte list \<Rightarrow> byte list" where
  "digestExample bs = bs"

text \<open>A reader of 2000 bytes whose first read fails after three bytes with an error that
  is not \<open>io.EOF\<close>.\<close>

definition faultyReader :: sectionReader where
  "faultyReader =
     \<lparr>source = (\<lambda>n off. if off = 0 then ([1, 2, 3], Some ReadError)
                         else fileSource (replicate 2000 7) n off),
      Size = 2000\<rparr>"

section \<open>The codec: results\<close>

subsection \<open>Seven-byte offsets\<close>

lemma Uint64_putUint64_drop: "Uint64 (0 # drop 1 (putUint64 x)) = Inr (take_bit 56 x)"
  unfolding Uint64_def putUint64_def
  apply simp
  apply (rule bit_word_eqI)
  apply (simp add: bit_simps less_diff_conv2 cong: conj_cong)
  subgoal for n
    apply (cases "bit x n"; simp)
    apply linarith
    done
  done

text \<open>
  Claim C10.  For every \<open>uint64\<close> value \<open>x\<close>, \<open>sevenByteOffset\<close> returns seven bytes and
  no error, and \<open>uintOffset\<close> of these bytes is \<open>x mod 2^56\<close>: an offset of \<open>2^56\<close> or more
  is cut down to its low 56 bits, not rejected.
\<close>

theorem uintOffset_sevenByteOffset:
  "\<exists>seven. sevenByteOffset x = Inr seven \<and> length seven = 7
      \<and> uintOffset seven = Inr (word_of_nat (unat x mod 2 ^ 56))"
proof (intro exI conjI)
  show "sevenByteOffset x = Inr (drop 1 (putUint64 x))"
    by (simp add: sevenByteOffset_def)
  show "length (drop 1 (putUint64 x)) = 7"
    by (simp add: putUint64_def)
  have "take_bit 56 x = (word_of_nat (unat x mod 2 ^ 56) :: 64 word)"
    by (simp add: take_bit_eq_mod word_arith_nat_mod)
  then show "uintOffset (drop 1 (putUint64 x)) = Inr (word_of_nat (unat x mod 2 ^ 56))"
    unfolding uintOffset_def Uint64_putUint64_drop by simp
qed

subsection \<open>Round trip of an acknowledgement\<close>

lemma sendTo_ackScenario3:
  "sendTo (ClientAck ackScenario3) =
     Inr [0x13, 1, 0, 0, 0, 0, 0, 0, 0, 0, 0, 0, 0, 0, 0, 0, 0,
          0, 0, 0, 0, 0, 0, 0, 0, 1, 0,
          0, 0, 0, 0, 0, 0, 0, 0, 3, 0]"
  by (simp add: sendTo_def ackScenario3_def msgHeader_MarshalBinary_def msgClientAck_def
      clientAck_MarshalBinary_def sevenByteOffset_def putUint64_def putUint32_def putUint16_def)

text \<open>In the earlier revision a resend entry comes back with the offset of the ack in
  place of its own.\<close>

lemma ClientAck_roundtrip_entry_offset:
  "andThen (ClientAck_MarshalBinary ackOneEntry) (\<lambda>bs. ClientAck_UnmarshalBinary (bs, []))
   = Inr (ackOneEntry\<lparr>resendEntries :=
            [\<lparr>resendEntry.fileIndex = 0, resendEntry.offset = 4, rlength = 1\<rparr>]\<rparr>)"
  by (simp add: ClientAck_MarshalBinary_def ClientAck_UnmarshalBinary_def ackOneEntry_def
      sevenByteOffset_def putUint64_def putUint32_def putUint16_def go_len_def go_cap_def
      go_index_def go_slice_def go_sliceFrom_def go_sliceTo_def unmarshalEntries.simps
      Uint16_def Uint32_def Uint64_def uintOffset_def)

text \<open>
  Claim C1.  Unmarshalling what marshalling produced should give the message back, with
  every resend entry of a ClientAck.  The code does not: the acknowledgement
  \<open>ackScenario3\<close> carries two resend entries; sent with \<open>sendTo\<close>, received and handed to
  \<open>handleACK\<close>, it comes back with the first entry only.  The loop bound
  \<open>len(reBytes)/10\<close> shrinks with every entry read while \<open>i\<close> grows, so the loop ends
  after about half of the entries.
\<close>

theorem clientAck_roundtrip_drops_entries:
  "andThen (sendTo (ClientAck ackScenario3)) (\<lambda>bs.
     andThen (receive bufferSize bs) (\<lambda>(header, p). handleACK p))
   = Inr (ackScenario3\<lparr>resendEntries :=
            [\<lparr>resendEntry.fileIndex = 0, resendEntry.offset = 1, rlength = 0\<rparr>]\<rparr>)"
  unfolding sendTo_ackScenario3
  by (simp add: receive_def bufferSize_def msgHeader_UnmarshalBinary_def go_len_def go_cap_def
      go_index_def go_slice_def go_sliceFrom_def go_sliceTo_def handleACK_def
      clientAck_UnmarshalBinary_def unmarshalEntries.simps Uint16_def Uint32_def Uint64_def
      uintOffset_def ackScenario3_def)

subsection \<open>Offsets beyond 56 bits\<close>

lemma marshalFiles_rejects:
  "\<exists>file \<in> set fs. fileDescriptor.offset file > maxFileOffset \<Longrightarrow>
   marshalFiles fs buf = Inl FileOffsetTooBig"
  by (induction fs arbitrary: buf) (auto simp: sevenByteOffset_def Let_def)

lemma clientRequest_MarshalBinary_rejects:
  "\<exists>file \<in> set (files s). fileDescriptor.offset file > maxFileOffset \<Longrightarrow>
   clientRequest_MarshalBinary s = Inl FileOffsetTooBig"
  by (simp add: clientRequest_MarshalBinary_def marshalFiles_rejects)

lemma clientAck_MarshalBinary_accepts_large_offset:
  "clientAck_MarshalBinary
     \<lparr>clientAck.ackNumber = 0, clientAck.fileIndex = 0, clientAck.status = 0,
      clientAck.maxTransmissionRate = 0, clientAck.offset = 2 ^ 56,
      resendEntries =
        [\<lparr>resendEntry.fileIndex = 0, resendEntry.offset = 2 ^ 56 + 1, rlength = 0\<rparr>]\<rparr>
   = Inr [0, 0, 0, 0, 0, 0, 0, 0, 0, 0, 0, 0, 0, 0,
          0, 0, 0, 0, 0, 0, 0, 0, 1, 0]"
  by (simp add: clientAck_MarshalBinary_def sevenByteOffset_def
      putUint64_def putUint32_def putUint16_def)

text \<open>
  Claim C4.  Every encoder should return an error for an offset above \<open>2^56 - 1\<close>.
  \<open>clientRequest.MarshalBinary\<close> does (\<open>clientRequest_MarshalBinary_rejects\<close>), but
  \<open>serverPayload.MarshalBinary\<close> has no such check: for the offset \<open>2^56\<close> it returns
  nine bytes and no error, the offset encoded as \<open>0\<close>.
\<close>

theorem serverPayload_MarshalBinary_accepts_large_offset:
  "maxFileOffset < 2 ^ 56 \<and>
   serverPayload_MarshalBinary
     \<lparr>serverPayload.fileIndex = 0, serverPayload.ackNumber = 0,
      serverPayload.offset = 2 ^ 56, data = []\<rparr>
   = Inr [0, 0, 0, 0, 0, 0, 0, 0, 0]"
  by (simp add: maxFileOffset_def serverPayload_MarshalBinary_def sevenByteOffset_def
      putUint64_def putUint16_def)

subsection \<open>Short inputs\<close>

lemma msgHeader_UnmarshalBinary_short:
  "go_len d < 2 \<Longrightarrow> msgHeader_UnmarshalBinary d = Inl MsgHeaderTooShort"
  by (simp add: msgHeader_UnmarshalBinary_def)

lemma clientRequest_UnmarshalBinary_short:
  "go_len d < 6 \<Longrightarrow> go_cap d = go_len d \<Longrightarrow> clientRequest_UnmarshalBinary d = Inl Panic"
  by (cases "go_cap d < 4")
     (auto simp: clientRequest_UnmarshalBinary_def go_sliceTo_def go_slice_def Uint32_def
        andThen_def split: sum.splits)

lemma serverMetaData_UnmarshalBinary_short:
  "go_len d < 28 \<Longrightarrow> go_cap d = go_len d \<Longrightarrow> serverMetaData_UnmarshalBinary d = Inl Panic"
  by (auto simp: serverMetaData_UnmarshalBinary_def go_index_def go_slice_def Uint16_def
        Uint64_def andThen_def split: sum.splits if_splits)

lemma serverPayload_UnmarshalBinary_short:
  "go_len d < 9 \<Longrightarrow> go_cap d = go_len d \<Longrightarrow> serverPayload_UnmarshalBinary d = Inl Panic"
  by (auto simp: serverPayload_UnmarshalBinary_def go_slice_def Uint16_def
        andThen_def split: sum.splits if_splits)

lemma clientAck_UnmarshalBinary_short:
  "go_len d < 14 \<Longrightarrow> go_cap d = go_len d \<Longrightarrow> clientAck_UnmarshalBinary d = Inl Panic"
  by (auto simp: clientAck_UnmarshalBinary_def go_slice_def go_index_def Uint16_def Uint32_def
        andThen_def split: sum.splits if_splits)

lemma clientRequest_UnmarshalBinary_reads_past_length:
  "clientRequest_UnmarshalBinary ([], [0, 0, 0, 0, 0, 0])
   = Inr \<lparr>clientRequest.maxTransmissionRate = 0, files = []\<rparr>"
  by (simp add: clientRequest_UnmarshalBinary_def go_sliceTo_def go_slice_def go_cap_def
      Uint32_def Uint16_def)

lemma receive_empty_datagram: "receive bufferSize [] = Inl Panic"
  by (simp add: receive_def bufferSize_def msgHeader_UnmarshalBinary_def go_len_def
      go_index_def go_sliceFrom_def go_slice_def go_cap_def)

text \<open>Through \<open>receive\<close>, a datagram that ends after the three header bytes reaches the
  body decoder as an empty slice on the zeroed receive buffer: the ack decoder panics on
  it, the request decoder reads zeros past its end and returns an empty request.\<close>

lemma receive_header_only_ack:
  "andThen (receive bufferSize [0x13, 0, 0]) (\<lambda>(header, p). handleACK p) = Inl Panic"
  by (simp add: receive_def bufferSize_def msgHeader_UnmarshalBinary_def go_len_def go_cap_def
      go_index_def go_slice_def go_sliceFrom_def handleACK_def clientAck_UnmarshalBinary_def
      Uint16_def)

lemma receive_header_only_request:
  "andThen (receive bufferSize [0x10, 0, 0])
     (\<lambda>(header, p). clientRequest_UnmarshalBinary (packet.data p))
   = Inr \<lparr>clientRequest.maxTransmissionRate = 0, files = []\<rparr>"
  by (simp add: receive_def bufferSize_def msgHeader_UnmarshalBinary_def go_len_def go_cap_def
      go_index_def go_slice_def go_sliceFrom_def go_sliceTo_def clientRequest_UnmarshalBinary_def
      Uint16_def Uint32_def)

text \<open>
  Claim C5.  A decoder given fewer bytes than its fixed prefix should return an error.
  The header decoder guards with \<open>len(data) < 2\<close> and then reads \<open>data[2]\<close>: on a
  two-byte input it panics with an index out of range and returns no error.  The body
  decoders have no guard at all (see the lemmas above: a short slice makes them panic,
  or read past its length where the capacity allows).
\<close>

theorem msgHeader_UnmarshalBinary_two_bytes:
  "go_len ([0x10, 0], []) < 3 \<and>
   msgHeader_UnmarshalBinary ([0x10, 0], []) = Inl Panic \<and>
   \<not> returnsError (msgHeader_UnmarshalBinary ([0x10, 0], []))"
  by (simp add: msgHeader_UnmarshalBinary_def go_len_def go_index_def returnsError_def)

section \<open>The cleaner: results\<close>

lemma notifyAll_fresh:
  "\<forall>ch \<in> set chs. sent ch = 0 \<and> \<not> chClosed ch \<Longrightarrow>
   notifyAll chs = Inr (map (\<lambda>ch. ch\<lparr>sent := 1, chClosed := True\<rparr>) chs)"
proof (induction chs)
  case Nil
  show ?case by simp
next
  case (Cons ch chs)
  from Cons.prems have a: "sent ch = 0" "\<not> chClosed ch"
    and b: "\<forall>x \<in> set chs. sent x = 0 \<and> \<not> chClosed x"
    by simp_all
  have 1: "chanSend ch = Inr (ch\<lparr>sent := 1\<rparr>)"
    using a by (simp add: chanSend_def)
  have 2: "chanClose (ch\<lparr>sent := 1\<rparr>) = Inr (ch\<lparr>sent := 1, chClosed := True\<rparr>)"
    using a by (simp add: chanClose_def)
  have 3: "notifyAll chs = Inr (map (\<lambda>ch. ch\<lparr>sent := 1, chClosed := True\<rparr>) chs)"
    by (rule Cons.IH [OF b])
  show ?case
    by (simp only: notifyAll.simps 1 2 3 sum.case list.map)
qed

lemma cleaner_close_notified:
  assumes "notified c"
  shows "\<exists>c'. cleaner_close c = Inr c' \<and> notified c' \<and> closedState c'
           \<and> length (subs c') = length (subs c)"
proof (cases "closedState c")
  case True
  with assms show ?thesis by (simp add: cleaner_close_def)
next
  case False
  with assms have "\<forall>ch \<in> set (subs c). sent ch = 0 \<and> \<not> chClosed ch"
    by (simp add: notified_def)
  then have "notifyAll (subs c) = Inr (map (\<lambda>ch. ch\<lparr>sent := 1, chClosed := True\<rparr>) (subs c))"
    by (rule notifyAll_fresh)
  with False assms show ?thesis
    by (simp add: cleaner_close_def notified_def)
qed

lemma cleaner_subscribe_notified:
  assumes "notified c"
  shows "\<exists>c'. cleaner_subscribe c = Inr (length (subs c), c') \<and> notified c'
           \<and> closedState c' = closedState c \<and> length (subs c') = Suc (length (subs c))"
  using assms
  by (cases "closedState c")
     (auto simp: cleaner_subscribe_def notified_def chanSend_def chanClose_def Let_def)


lemma cleanerRun_notified:
  "notified c \<Longrightarrow>
   \<exists>c'. cleanerRun calls c = Inr c' \<and> notified c'
      \<and> closedState c' = (closedState c \<or> Close \<in> set calls)
      \<and> length (subs c') = length (subs c) + count_list calls Subscribe"
proof (induction calls arbitrary: c)
  case Nil
  then show ?case by simp
next
  case (Cons call calls)
  show ?case
  proof (cases call)
    case Subscribe
    obtain c1 where c1: "cleaner_subscribe c = Inr (length (subs c), c1)" "notified c1"
        "closedState c1 = closedState c" "length (subs c1) = Suc (length (subs c))"
      using cleaner_subscribe_notified [OF Cons.prems] by blast
    from Cons.IH [OF c1(2)] c1 Subscribe show ?thesis by auto
  next
    case Close
    obtain c1 where c1: "cleaner_close c = Inr c1" "notified c1" "closedState c1"
        "length (subs c1) = length (subs c)"
      using cleaner_close_notified [OF Cons.prems] by blast
    from Cons.IH [OF c1(2)] c1 Close show ?thesis by auto
  qed
qed

text \<open>
  Claim C9.  After any sequence of calls of \<open>subscribe\<close> and \<open>close\<close> on a new cleaner,
  no call has panicked or blocked, there is one channel per call of \<open>subscribe\<close>, and
  if \<open>close\<close> was called at all then every channel, whether subscribed before or
  after, has received exactly one notification and is closed, the callback has run once,
  and a further \<open>close\<close> changes nothing; before any \<open>close\<close> no channel has received
  anything.
\<close>

theorem cleaner_notifies_once:
  "\<exists>c. cleanerRun calls newCleaner = Inr c
     \<and> length (subs c) = count_list calls Subscribe
     \<and> closedState c = (Close \<in> set calls)
     \<and> (\<forall>ch \<in> set (subs c). sent ch = (if Close \<in> set calls then 1 else 0)
                              \<and> chClosed ch = (Close \<in> set calls))
     \<and> cbCalls c = (if Close \<in> set calls then 1 else 0)
     \<and> (Close \<in> set calls \<longrightarrow> cleaner_close c = Inr c)"
proof -
  have "notified newCleaner"
    by (simp add: notified_def newCleaner_def)
  from cleanerRun_notified [OF this, of calls]
  obtain c where c: "cleanerRun calls newCleaner = Inr c" "notified c"
      "closedState c = (Close \<in> set calls)"
      "length (subs c) = count_list calls Subscribe"
    by (auto simp: newCleaner_def)
  then show ?thesis
    by (auto simp: notified_def cleaner_close_def)
qed

theorem cleaner_notifies_once_witness:
  "cleanerRun [Subscribe, Close, Subscribe, Close] newCleaner =
     Inr \<lparr>subs = [\<lparr>sent = 1, chClosed = True\<rparr>, \<lparr>sent = 1, chClosed = True\<rparr>],
          closedState = True, cbCalls = 1\<rparr>
   \<and> Close \<in> set [Subscribe, Close, Subscribe, Close]"
  using cleaner_notifies_once [of "[Subscribe, Close, Subscribe, Close]"]
  by (simp add: newCleaner_def cleaner_subscribe_def cleaner_close_def chanSend_def chanClose_def)


section \<open>Sorting: results\<close>

text \<open>Insertion sort by the key is a \<open>sorter\<close>.  Every \<open>sorter\<close> keeps the elements and
  their number, and leaves a list alone that is in order already and has no two different
  elements of one key.\<close>

lemma sorter_sort_key: "sorter key (sort_key key)"
  by (simp add: sorter_def)

lemma sorter_mset: "sorter key srt \<Longrightarrow> mset (srt xs) = mset xs"
  by (simp add: sorter_def)

lemma sorter_set: "sorter key srt \<Longrightarrow> set (srt xs) = set xs"
  by (metis sorter_mset mset_eq_setD)

lemma sorter_length: "sorter key srt \<Longrightarrow> length (srt xs) = length xs"
  by (metis sorter_mset mset_eq_length)

lemma sorter_sorted: "sorter key srt \<Longrightarrow> sorted (map key (srt xs))"
  by (simp add: sorter_def)

lemma sorter_distinct:
  assumes "sorter key srt" "distinct (map f xs)"
  shows "distinct (map f (srt xs))"
proof -
  have "mset (map f (srt xs)) = mset (map f xs)"
    using sorter_mset [OF assms(1)] by (metis mset_map)
  then show ?thesis
    using assms(2) by (metis mset_eq_imp_distinct_iff)
qed

lemma sorter_unique:
  assumes "sorter key srt" "mset ys = mset xs" "sorted (map key ys)" "inj_on key (set xs)"
  shows "srt xs = ys"
proof -
  have "mset (map key (srt xs)) = mset (map key xs)"
    using sorter_mset [OF assms(1)] by (metis mset_map)
  then have "sort (map key xs) = map key (srt xs)"
    using sorter_sorted [OF assms(1)] by (intro properties_for_sort) simp_all
  moreover have "mset (map key ys) = mset (map key xs)"
    using assms(2) by (metis mset_map)
  then have "sort (map key xs) = map key ys"
    using assms(3) by (intro properties_for_sort) simp_all
  ultimately have "map key (srt xs) = map key ys"
    by simp
  moreover have "set ys = set xs"
    using assms(2) by (rule mset_eq_setD)
  then have "inj_on key (set (srt xs) \<union> set ys)"
    using assms(4) sorter_set [OF assms(1)] by simp
  ultimately show ?thesis
    by (simp add: inj_on_map_eq_map)
qed

lemma sorter_sorted_id:
  assumes "sorter key srt" "sorted (map key xs)" "inj_on key (set xs)"
  shows "srt xs = xs"
  using assms(1) _ assms(2,3) by (rule sorter_unique) simp


section \<open>The rescheduler: results\<close>

lemma unat_ucast_rlength: "unat (ucast (l :: byte) :: 64 word) = unat l"
proof -
  have "unat l < 2 ^ 8"
    using unsigned_less [of l] by simp
  then have "unat l < 2 ^ 64"
    by simp
  then show ?thesis
    by (simp add: unsigned_ucast_eq take_bit_nat_eq_self)
qed

lemma resendRun_cached:
  "\<forall>k < unat (rlength re).
      getFromCache cache (resendEntry.fileIndex re) (resendEntry.offset re + of_nat k) \<noteq> None
   \<Longrightarrow> unat i \<le> unat (rlength re)
   \<Longrightarrow> resendRun cache re i =
         map (\<lambda>k. the (getFromCache cache (resendEntry.fileIndex re)
                           (resendEntry.offset re + of_nat k)))
             [unat i ..< unat (rlength re)]"
proof (induction cache re i rule: resendRun.induct)
  case (1 cache re i)
  show ?case
  proof (cases "i < ucast (rlength re)")
    case False
    then have "unat (rlength re) \<le> unat i"
      by (simp add: word_less_nat_alt unat_ucast_rlength)
    with False show ?thesis
      by (subst resendRun.simps) simp
  next
    case True
    then have lt: "unat i < unat (rlength re)"
      by (simp add: word_less_nat_alt unat_ucast_rlength)
    then have "getFromCache cache (resendEntry.fileIndex re)
                 (resendEntry.offset re + of_nat (unat i)) \<noteq> None"
      using "1.prems"(1) by blast
    then have "getFromCache cache (resendEntry.fileIndex re) (resendEntry.offset re + i) \<noteq> None"
      by simp
    then obtain p where p: "getFromCache cache (resendEntry.fileIndex re)
                              (resendEntry.offset re + i) = Some p"
      by blast
    have "unat (rlength re) < 256"
      using unsigned_less [of "rlength re"] by simp
    with lt have "unat i + 1 < 2 ^ 64"
      by simp
    then have suc: "unat (i + 1) = Suc (unat i)"
      by (simp add: unat_word_ariths)
    have IH: "resendRun cache re (i + 1) =
           map (\<lambda>k. the (getFromCache cache (resendEntry.fileIndex re)
                             (resendEntry.offset re + of_nat k)))
               [Suc (unat i) ..< unat (rlength re)]"
      using "1.IH" [OF True p "1.prems"(1)] lt suc by simp
    have "[unat i ..< unat (rlength re)] = unat i # [Suc (unat i) ..< unat (rlength re)]"
      using lt by (simp add: upt_conv_Cons)
    then show ?thesis
      using True p IH by (subst resendRun.simps) simp
  qed
qed

lemma rescheduleEntry_scheduled:
  "fst (rescheduleEntry cache scheduled metadata re) = insert (entryKey re) scheduled"
  by (auto simp: rescheduleEntry_def Let_def entryKey_def)

lemma rescheduleEntry_cached:
  assumes "entryKey re \<notin> scheduled" and "cachedRun cache re"
  shows "snd (snd (rescheduleEntry cache scheduled metadata re)) = resent cache re"
proof (cases "rlength re = 0")
  case True
  then have "getFromCache cache (resendEntry.fileIndex re) (resendEntry.offset re + of_nat 0) \<noteq> None"
    using assms(2) by (simp add: cachedRun_def resendCount_def)
  then obtain p where p: "getFromCache cache (resendEntry.fileIndex re) (resendEntry.offset re) = Some p"
    by auto
  have "resendRun cache re 0 = []"
    using True by (subst resendRun.simps) simp
  then show ?thesis
    using True p assms(1) by (simp add: rescheduleEntry_def Let_def resent_def resendCount_def entryKey_def)
next
  case False
  then have pos: "0 < unat (rlength re)"
    by (simp add: unat_gt_0)
  have c: "\<forall>k < unat (rlength re).
      getFromCache cache (resendEntry.fileIndex re) (resendEntry.offset re + of_nat k) \<noteq> None"
    using assms(2) False by (simp add: cachedRun_def resendCount_def)
  with pos have "getFromCache cache (resendEntry.fileIndex re) (resendEntry.offset re + of_nat 0) \<noteq> None"
    by blast
  then obtain p where p: "getFromCache cache (resendEntry.fileIndex re) (resendEntry.offset re) = Some p"
    by auto
  have "resendRun cache re 0 =
      map (\<lambda>k. the (getFromCache cache (resendEntry.fileIndex re) (resendEntry.offset re + of_nat k)))
          [0 ..< unat (rlength re)]"
    using resendRun_cached [OF c, of 0] by simp
  then show ?thesis
    using False p assms(1) by (simp add: rescheduleEntry_def Let_def resent_def resendCount_def entryKey_def)
qed

lemma rate_lets_through:
  fixes rate :: "32 word"
  assumes "rate = 0 \<or> i \<le> unat rate"
  shows "\<not> (rate > 0 \<and> (of_nat i :: 32 word) > rate)"
proof (cases "rate = 0")
  case True
  then show ?thesis by simp
next
  case False
  with assms have le: "i \<le> unat rate" by simp
  have "unat rate < 2 ^ 32"
    using unsigned_less [of rate] by simp
  with le have "i < 2 ^ 32" by simp
  then have "unat (of_nat i :: 32 word) = i"
    by (simp add: unat_of_nat take_bit_nat_eq_self)
  with le have "(of_nat i :: 32 word) \<le> rate"
    by (simp add: word_le_nat_alt)
  then show ?thesis by (simp add: not_less)
qed

lemma rescheduleEntries_pieces:
  "\<exists>pieces. length pieces = length es
     \<and> snd (snd (rescheduleEntries cache rate i es scheduled metadata)) = concat pieces
     \<and> (\<forall>j < length es.
          (rate = 0 \<or> i + j \<le> unat rate)
          \<and> entryKey (es ! j) \<notin> scheduled \<union> entryKey ` set (take j es)
          \<and> cachedRun cache (es ! j)
          \<longrightarrow> pieces ! j = resent cache (es ! j))"
proof (induction es arbitrary: i scheduled metadata)
  case Nil
  show ?case by simp
next
  case (Cons re rest)
  show ?case
  proof (cases "rate > 0 \<and> (of_nat i :: 32 word) > rate")
    case True
    have "\<not> (rate = 0 \<or> i + j \<le> unat rate)" for j
    proof
      assume "rate = 0 \<or> i + j \<le> unat rate"
      then have "rate = 0 \<or> i \<le> unat rate" by auto
      from rate_lets_through [OF this] True show False by simp
    qed
    moreover have "snd (snd (rescheduleEntries cache rate i (re # rest) scheduled metadata))
        = concat (replicate (length (re # rest)) [])"
      using True by simp
    ultimately show ?thesis
      by (intro exI [of _ "replicate (length (re # rest)) []"]) simp
  next
    case False
    obtain s' m' out where e: "rescheduleEntry cache scheduled metadata re = (s', m', out)"
      by (cases "rescheduleEntry cache scheduled metadata re") auto
    have s': "s' = insert (entryKey re) scheduled"
      using rescheduleEntry_scheduled [of cache scheduled metadata re] e by simp
    obtain pieces where p: "length pieces = length rest"
      "snd (snd (rescheduleEntries cache rate (i + 1) rest s' m')) = concat pieces"
      "\<forall>j < length rest.
          (rate = 0 \<or> i + 1 + j \<le> unat rate)
          \<and> entryKey (rest ! j) \<notin> s' \<union> entryKey ` set (take j rest)
          \<and> cachedRun cache (rest ! j)
          \<longrightarrow> pieces ! j = resent cache (rest ! j)"
      using Cons.IH [of "i + 1" s' m'] by blast
    have 1: "length (out # pieces) = length (re # rest)"
      using p(1) by simp
    have 2: "snd (snd (rescheduleEntries cache rate i (re # rest) scheduled metadata))
             = concat (out # pieces)"
      using False e p(2)
      by (cases "rescheduleEntries cache rate (i + 1) rest s' m'") auto
    have 3: "(out # pieces) ! j = resent cache ((re # rest) ! j)"
      if j: "j < length (re # rest)"
        and r: "rate = 0 \<or> i + j \<le> unat rate"
        and n: "entryKey ((re # rest) ! j) \<notin> scheduled \<union> entryKey ` set (take j (re # rest))"
        and c: "cachedRun cache ((re # rest) ! j)" for j
    proof (cases j)
      case 0
      with n c have "entryKey re \<notin> scheduled" "cachedRun cache re" by simp_all
      from rescheduleEntry_cached [OF this, of metadata] e 0 show ?thesis by simp
    next
      case (Suc j')
      with j have "j' < length rest" by simp
      moreover from r Suc have "rate = 0 \<or> i + 1 + j' \<le> unat rate" by simp
      moreover from n Suc have "entryKey (rest ! j') \<notin> s' \<union> entryKey ` set (take j' rest)"
        by (simp add: s')
      moreover from c Suc have "cachedRun cache (rest ! j')" by simp
      ultimately have "pieces ! j' = resent cache (rest ! j')"
        using p(3) by blast
      with Suc show ?thesis by simp
    qed
    from 1 2 3 show ?thesis by blast
  qed
qed


lemma reschedule_payloads:
  "fst (snd (reschedule srt cache metadataCache scheduled ack)) =
     (if srt (resendEntries ack) = []
      then (case getFromCache cache (clientAck.fileIndex ack) (clientAck.offset ack) of
              Some p \<Rightarrow> [p] | None \<Rightarrow> [])
      else [])
     @ snd (snd (rescheduleEntries cache (clientAck.maxTransmissionRate ack) 0
                   (srt (resendEntries ack)) scheduled
                   (if ackMetaDataMissing ack then {clientAck.fileIndex ack} else {})))"
  by (simp add: reschedule_def Let_def split: prod.splits)

lemma reschedule_pieces:
  assumes "sorter resendEntry.offset srt" and "resendEntries ack \<noteq> []"
  shows "\<exists>pieces. length pieces = length (resendEntries ack)
     \<and> fst (snd (reschedule srt cache metadataCache scheduled ack)) = concat pieces
     \<and> (\<forall>j < length (resendEntries ack).
          (clientAck.maxTransmissionRate ack = 0 \<or> j \<le> unat (clientAck.maxTransmissionRate ack))
          \<and> entryKey (srt (resendEntries ack) ! j)
               \<notin> scheduled \<union> entryKey ` set (take j (srt (resendEntries ack)))
          \<and> cachedRun cache (srt (resendEntries ack) ! j)
          \<longrightarrow> pieces ! j = resent cache (srt (resendEntries ack) ! j))"
proof -
  let ?es = "srt (resendEntries ack)"
  have len: "length ?es = length (resendEntries ack)"
    using assms(1) by (rule sorter_length)
  with assms(2) have ne: "?es \<noteq> []" by auto
  from rescheduleEntries_pieces [of ?es cache "clientAck.maxTransmissionRate ack" 0 scheduled
      "if ackMetaDataMissing ack then {clientAck.fileIndex ack} else {}"]
  show ?thesis
    unfolding reschedule_payloads using ne len by simp
qed

lemma distinct_nth_notin_take:
  assumes "distinct xs" "j < length xs"
  shows "xs ! j \<notin> set (take j xs)"
proof
  assume "xs ! j \<in> set (take j xs)"
  then obtain i where "i < j" "take j xs ! i = xs ! j"
    using assms(2) by (auto simp: in_set_conv_nth)
  then have "xs ! i = xs ! j" "i < j" by simp_all
  with assms show False
    by (simp add: distinct_conv_nth)
qed

lemma reschedule_all_cached:
  assumes "sorter resendEntry.offset srt" and "resendEntries ack \<noteq> []"
    and "clientAck.maxTransmissionRate ack = 0
         \<or> length (resendEntries ack) \<le> unat (clientAck.maxTransmissionRate ack) + 1"
    and "distinct (map entryKey (resendEntries ack))"
    and "\<forall>re \<in> set (resendEntries ack). entryKey re \<notin> scheduled \<and> cachedRun cache re"
  shows "fst (snd (reschedule srt cache metadataCache scheduled ack)) =
           concat (map (resent cache) (srt (resendEntries ack)))"
proof -
  let ?es = "srt (resendEntries ack)"
  have len: "length ?es = length (resendEntries ack)"
    using assms(1) by (rule sorter_length)
  have set: "set ?es = set (resendEntries ack)"
    using assms(1) by (rule sorter_set)
  have dist: "distinct (map entryKey ?es)"
    using assms(1,4) by (rule sorter_distinct)
  obtain pieces where p: "length pieces = length (resendEntries ack)"
    "fst (snd (reschedule srt cache metadataCache scheduled ack)) = concat pieces"
    "\<forall>j < length (resendEntries ack).
          (clientAck.maxTransmissionRate ack = 0 \<or> j \<le> unat (clientAck.maxTransmissionRate ack))
          \<and> entryKey (?es ! j) \<notin> scheduled \<union> entryKey ` set (take j ?es)
          \<and> cachedRun cache (?es ! j)
          \<longrightarrow> pieces ! j = resent cache (?es ! j)"
    using reschedule_pieces [OF assms(1,2)] by blast
  have "pieces = map (resent cache) ?es"
  proof (rule nth_equalityI)
    show "length pieces = length (map (resent cache) ?es)"
      using p(1) len by simp
    fix j assume "j < length pieces"
    with p(1) have j: "j < length (resendEntries ack)" by simp
    then have mem: "?es ! j \<in> set (resendEntries ack)"
      using len set by (metis nth_mem)
    have 1: "clientAck.maxTransmissionRate ack = 0 \<or> j \<le> unat (clientAck.maxTransmissionRate ack)"
      using assms(3) j by auto
    have "map entryKey ?es ! j \<notin> set (take j (map entryKey ?es))"
      using dist j len by (intro distinct_nth_notin_take) simp_all
    then have 2: "entryKey (?es ! j) \<notin> entryKey ` set (take j ?es)"
      using j len by (simp add: take_map)
    from mem assms(5) have 3: "entryKey (?es ! j) \<notin> scheduled" "cachedRun cache (?es ! j)"
      by blast+
    from p(3) j 1 2 3 have "pieces ! j = resent cache (?es ! j)"
      by blast
    then show "pieces ! j = map (resent cache) ?es ! j"
      using j len by simp
  qed
  with p(2) show ?thesis by simp
qed



text \<open>
  Claim C8.  The payloads that the rescheduler sends for resend in reaction to an ack are
  made of one piece for every resend entry, in the order of the sorted entries.  For an
  entry with \<open>length > 0\<close> that the rate check lets through, whose file index and offset
  are neither in the rescheduled set nor those of an earlier entry, and whose chunks
  \<open>offset\<close> through \<open>offset + length - 1\<close> are cached, the piece is exactly these
  \<open>length\<close> cached payloads: the resend loop runs for \<open>i < length\<close>, so the chunk
  \<open>offset + length\<close> is not resent, and the entry stands for \<open>length\<close> chunks, not for
  \<open>length + 1\<close>.  (An entry with \<open>length = 0\<close> is served by a branch of its own, which
  resends the one chunk at \<open>offset\<close>.)
\<close>

theorem reschedule_resends_length_chunks:
  assumes "sorter resendEntry.offset srt" and "resendEntries ack \<noteq> []"
  shows "\<exists>pieces. length pieces = length (resendEntries ack)
     \<and> fst (snd (reschedule srt cache metadataCache scheduled ack)) = concat pieces
     \<and> (\<forall>j < length (resendEntries ack). \<forall>re.
          re = srt (resendEntries ack) ! j
          \<and> rlength re > 0
          \<and> (clientAck.maxTransmissionRate ack = 0 \<or> j \<le> unat (clientAck.maxTransmissionRate ack))
          \<and> entryKey re \<notin> scheduled \<union> entryKey ` set (take j (srt (resendEntries ack)))
          \<and> (\<forall>k < unat (rlength re).
                getFromCache cache (resendEntry.fileIndex re) (resendEntry.offset re + of_nat k)
                  \<noteq> None)
          \<longrightarrow> pieces ! j =
                map (\<lambda>k. the (getFromCache cache (resendEntry.fileIndex re)
                                  (resendEntry.offset re + of_nat k)))
                    [0 ..< unat (rlength re)])"
proof -
  obtain pieces where p: "length pieces = length (resendEntries ack)"
    "fst (snd (reschedule srt cache metadataCache scheduled ack)) = concat pieces"
    "\<forall>j < length (resendEntries ack).
          (clientAck.maxTransmissionRate ack = 0 \<or> j \<le> unat (clientAck.maxTransmissionRate ack))
          \<and> entryKey (srt (resendEntries ack) ! j)
               \<notin> scheduled \<union> entryKey ` set (take j (srt (resendEntries ack)))
          \<and> cachedRun cache (srt (resendEntries ack) ! j)
          \<longrightarrow> pieces ! j = resent cache (srt (resendEntries ack) ! j)"
    using reschedule_pieces [OF assms] by blast
  have "pieces ! j =
          map (\<lambda>k. the (getFromCache cache (resendEntry.fileIndex re)
                            (resendEntry.offset re + of_nat k)))
              [0 ..< unat (rlength re)]"
    if "j < length (resendEntries ack)" "re = srt (resendEntries ack) ! j" "rlength re > 0"
      "clientAck.maxTransmissionRate ack = 0 \<or> j \<le> unat (clientAck.maxTransmissionRate ack)"
      "entryKey re \<notin> scheduled \<union> entryKey ` set (take j (srt (resendEntries ack)))"
      "\<forall>k < unat (rlength re).
          getFromCache cache (resendEntry.fileIndex re) (resendEntry.offset re + of_nat k) \<noteq> None"
    for j re
  proof -
    from that(3) have n: "rlength re \<noteq> 0" by auto
    with that(6) have "cachedRun cache re"
      by (simp add: cachedRun_def resendCount_def)
    with p(3) that(1,2,4,5) have "pieces ! j = resent cache re"
      by blast
    with n show ?thesis
      by (simp add: resent_def resendCount_def)
  qed
  with p(1,2) show ?thesis by blast
qed


lemma getFromCache_cacheUpTo:
  "getFromCache (cacheUpTo n) 0 off = (if off \<le> n then Some (cachedChunk off) else None)"
  by (simp add: getFromCache_def cacheUpTo_def)

text \<open>With the chunks 0 through 10 of file 0 cached and an ack whose entries are
  \<open>{0, 8, 2}\<close> and \<open>{0, 5, 1}\<close>, the rescheduler resends the chunks 5, 8 and 9, and
  neither the chunk 6 nor the chunk 10.\<close>

theorem reschedule_resends_length_chunks_witness:
  "resendEntries ackTwoEntries =
     [\<lparr>resendEntry.fileIndex = 0, resendEntry.offset = 8, rlength = 2\<rparr>,
      \<lparr>resendEntry.fileIndex = 0, resendEntry.offset = 5, rlength = 1\<rparr>]
   \<and> getFromCache (cacheUpTo 10) 0 6 = Some (cachedChunk 6)
   \<and> getFromCache (cacheUpTo 10) 0 10 = Some (cachedChunk 10)
   \<and> fst (snd (reschedule (sort_key resendEntry.offset) (cacheUpTo 10) Map.empty {} ackTwoEntries))
       = [cachedChunk 5, cachedChunk 8, cachedChunk 9]"
proof -
  let ?srt = "sort_key resendEntry.offset"
  let ?e5 = "\<lparr>resendEntry.fileIndex = 0, resendEntry.offset = 5, rlength = 1\<rparr>"
  let ?e8 = "\<lparr>resendEntry.fileIndex = 0, resendEntry.offset = 8, rlength = 2\<rparr>"
  let ?run = "\<lambda>re. map (\<lambda>k. the (getFromCache (cacheUpTo 10) (resendEntry.fileIndex re)
                                  (resendEntry.offset re + of_nat k)))
                    [0 ..< unat (rlength re)]"
  have ne: "resendEntries ackTwoEntries \<noteq> []"
    by (simp add: ackTwoEntries_def)
  have es: "?srt (resendEntries ackTwoEntries) = [?e5, ?e8]"
    by (simp add: ackTwoEntries_def)
  have n: "length (resendEntries ackTwoEntries) = 2"
    by (simp add: ackTwoEntries_def)
  have rate: "clientAck.maxTransmissionRate ackTwoEntries = 0"
    by (simp add: ackTwoEntries_def)
  obtain pieces where p: "length pieces = length (resendEntries ackTwoEntries)"
    "fst (snd (reschedule ?srt (cacheUpTo 10) Map.empty {} ackTwoEntries)) = concat pieces"
    "\<forall>j < length (resendEntries ackTwoEntries). \<forall>re.
          re = ?srt (resendEntries ackTwoEntries) ! j
          \<and> rlength re > 0
          \<and> (clientAck.maxTransmissionRate ackTwoEntries = 0
              \<or> j \<le> unat (clientAck.maxTransmissionRate ackTwoEntries))
          \<and> entryKey re \<notin> {} \<union> entryKey ` set (take j (?srt (resendEntries ackTwoEntries)))
          \<and> (\<forall>k < unat (rlength re).
                getFromCache (cacheUpTo 10) (resendEntry.fileIndex re)
                  (resendEntry.offset re + of_nat k) \<noteq> None)
          \<longrightarrow> pieces ! j = ?run re"
    using reschedule_resends_length_chunks [OF sorter_sort_key ne, of "cacheUpTo 10"
        Map.empty "{}"]
    by blast
  have c5: "\<forall>k < unat (rlength ?e5).
          getFromCache (cacheUpTo 10) (resendEntry.fileIndex ?e5)
            (resendEntry.offset ?e5 + of_nat k) \<noteq> None"
    by (simp add: getFromCache_cacheUpTo)
  have c8: "\<forall>k < unat (rlength ?e8).
          getFromCache (cacheUpTo 10) (resendEntry.fileIndex ?e8)
            (resendEntry.offset ?e8 + of_nat k) \<noteq> None"
  proof (intro allI impI)
    fix k :: nat
    assume "k < unat (rlength ?e8)"
    then have "k < 2" by simp
    then have "k = 0 \<or> k = 1" by auto
    then show "getFromCache (cacheUpTo 10) (resendEntry.fileIndex ?e8)
                 (resendEntry.offset ?e8 + of_nat k) \<noteq> None"
      by (auto simp: getFromCache_cacheUpTo)
  qed
  have "pieces ! 0 = ?run ?e5"
  proof (rule p(3) [rule_format, of 0 ?e5])
    show "0 < length (resendEntries ackTwoEntries)"
      by (simp add: n)
    show "?e5 = ?srt (resendEntries ackTwoEntries) ! 0
          \<and> rlength ?e5 > 0
          \<and> (clientAck.maxTransmissionRate ackTwoEntries = 0
              \<or> 0 \<le> unat (clientAck.maxTransmissionRate ackTwoEntries))
          \<and> entryKey ?e5 \<notin> {} \<union> entryKey ` set (take 0 (?srt (resendEntries ackTwoEntries)))
          \<and> (\<forall>k < unat (rlength ?e5).
                getFromCache (cacheUpTo 10) (resendEntry.fileIndex ?e5)
                  (resendEntry.offset ?e5 + of_nat k) \<noteq> None)"
      using c5 by (simp add: es rate)
  qed
  then have 0: "pieces ! 0 = [cachedChunk 5]"
    by (simp add: getFromCache_cacheUpTo)
  have "pieces ! 1 = ?run ?e8"
  proof (rule p(3) [rule_format, of 1 ?e8])
    show "1 < length (resendEntries ackTwoEntries)"
      by (simp add: n)
    show "?e8 = ?srt (resendEntries ackTwoEntries) ! 1
          \<and> rlength ?e8 > 0
          \<and> (clientAck.maxTransmissionRate ackTwoEntries = 0
              \<or> 1 \<le> unat (clientAck.maxTransmissionRate ackTwoEntries))
          \<and> entryKey ?e8 \<notin> {} \<union> entryKey ` set (take 1 (?srt (resendEntries ackTwoEntries)))
          \<and> (\<forall>k < unat (rlength ?e8).
                getFromCache (cacheUpTo 10) (resendEntry.fileIndex ?e8)
                  (resendEntry.offset ?e8 + of_nat k) \<noteq> None)"
      using c8 by (simp add: es rate entryKey_def)
  qed
  then have 1: "pieces ! 1 = [cachedChunk 8, cachedChunk 9]"
    by (simp add: getFromCache_cacheUpTo upt_conv_Cons)
  have "length pieces = 2"
    using p(1) n by simp
  then obtain a b where ab: "pieces = [a, b]"
    by (cases pieces; cases "tl pieces") auto
  with 0 1 have "concat pieces = [cachedChunk 5, cachedChunk 8, cachedChunk 9]"
    by simp
  with p(2) show ?thesis
    by (simp add: ackTwoEntries_def getFromCache_cacheUpTo)
qed


section \<open>The producer: results\<close>

lemma ReadAt_length:
  assumes "readerContract s"
  shows "length (fst (ReadAt s n off)) \<le> n"
proof -
  have c: "length (fst (source s k off)) \<le> k" for k
    using assms by (simp add: readerContract_def)
  show ?thesis
  proof (cases "off \<ge> Size s")
    case True
    then show ?thesis by (simp add: ReadAt_def)
  next
    case False
    show ?thesis
    proof (cases "n > Size s - off")
      case True
      with False c [of "Size s - off"] show ?thesis
        by (auto simp: ReadAt_def split: prod.splits)
    next
      case False
      with \<open>\<not> off \<ge> Size s\<close> c [of n] show ?thesis
        by (simp add: ReadAt_def)
    qed
  qed
qed

lemma ReadAt_before_end:
  "snd (ReadAt s n off) \<noteq> Some EOF \<Longrightarrow> off < Size s"
  by (cases "off < Size s") (simp_all add: ReadAt_def)

lemma readChunks_open:
  "\<forall>t. \<not> sees t \<Longrightarrow>
   \<exists>m. payloads (readChunks sees index s t off hashed)
               = map (chunkAt index s) [off ..< off + m + 1]
     \<and> written (readChunks sees index s t off hashed)
         = hashed @ concat (map (\<lambda>k. fst (ReadAt s 1024 (1024 * k))) [off ..< off + m + 1])
     \<and> \<not> stopped (readChunks sees index s t off hashed)
     \<and> snd (ReadAt s 1024 (1024 * (off + m))) = Some EOF
     \<and> (\<forall>k. off \<le> k \<and> k < off + m \<longrightarrow> snd (ReadAt s 1024 (1024 * k)) \<noteq> Some EOF)"
proof (induction sees index s t off hashed rule: readChunks.induct)
  case (1 sees index s t off hashed)
  obtain buf err where r: "ReadAt s 1024 (1024 * off) = (buf, err)"
    by (cases "ReadAt s 1024 (1024 * off)") auto
  have nc: "\<not> sees t" using "1.prems" by simp
  show ?case
  proof (cases "err = Some EOF")
    case True
    have "readChunks sees index s t off hashed =
        \<lparr>payloads = [chunkAt index s off], written = hashed @ buf, looks = t + 1,
         stopped = False\<rparr>"
      using r True nc by (subst readChunks.simps) (simp add: chunkAt_def)
    with r True show ?thesis
      by (intro exI [of _ 0]) auto
  next
    case False
    let ?rest = "readChunks sees index s (t + 1) (off + 1) (hashed @ buf)"
    obtain m where m: "payloads ?rest = map (chunkAt index s) [off + 1 ..< off + 1 + m + 1]"
      "written ?rest = (hashed @ buf)
         @ concat (map (\<lambda>k. fst (ReadAt s 1024 (1024 * k))) [off + 1 ..< off + 1 + m + 1])"
      "\<not> stopped ?rest"
      "snd (ReadAt s 1024 (1024 * (off + 1 + m))) = Some EOF"
      "\<forall>k. off + 1 \<le> k \<and> k < off + 1 + m \<longrightarrow> snd (ReadAt s 1024 (1024 * k)) \<noteq> Some EOF"
      using "1.IH" [OF r [symmetric] nc False "1.prems"] by blast
    have eq: "readChunks sees index s t off hashed =
        ?rest\<lparr>payloads := chunkAt index s off # payloads ?rest\<rparr>"
      using r False nc by (subst readChunks.simps) (simp add: chunkAt_def Let_def)
    have u: "[off ..< off + (m + 1) + 1] = off # [off + 1 ..< off + 1 + m + 1]"
      by (simp add: upt_conv_Cons)
    have 1: "payloads (readChunks sees index s t off hashed)
               = map (chunkAt index s) [off ..< off + (m + 1) + 1]"
      unfolding eq u using m(1) by simp
    have 2: "written (readChunks sees index s t off hashed)
         = hashed @ concat (map (\<lambda>k. fst (ReadAt s 1024 (1024 * k))) [off ..< off + (m + 1) + 1])"
      unfolding eq u using m(2) r by simp
    have 3: "\<not> stopped (readChunks sees index s t off hashed)"
      unfolding eq using m(3) by simp
    have 4: "snd (ReadAt s 1024 (1024 * (off + (m + 1)))) = Some EOF"
      using m(4) by (simp add: ac_simps)
    have 5: "snd (ReadAt s 1024 (1024 * k)) \<noteq> Some EOF" if "off \<le> k \<and> k < off + (m + 1)" for k
    proof (cases "k = off")
      case True
      with r False show ?thesis by simp
    next
      case False
      with that have "off + 1 \<le> k \<and> k < off + 1 + m" by simp
      with m(5) show ?thesis by blast
    qed
    from 1 2 3 4 5 show ?thesis by blast
  qed
qed


lemma sorted_offsets:
  assumes "n \<le> 2 ^ 64"
  shows "sorted_wrt (<) (map (of_nat :: nat \<Rightarrow> 64 word) [0 ..< n])"
proof -
  have "sorted_wrt (\<lambda>x y. (of_nat x :: 64 word) < of_nat y) [0 ..< n]"
  proof (rule sorted_wrt_mono_rel [where P = "(<)"])
    fix x y :: nat
    assume "x \<in> set [0 ..< n]" "y \<in> set [0 ..< n]" "x < y"
    with assms have "x < 2 ^ 64" "y < 2 ^ 64" by simp_all
    with \<open>x < y\<close> show "(of_nat x :: 64 word) < of_nat y"
      by (simp add: word_of_nat_less_iff take_bit_nat_eq_self)
  qed simp
  then show ?thesis
    by (simp add: sorted_wrt_map)
qed

lemma fileResponse_open:
  assumes "\<forall>t. \<not> sees t" and "\<forall>s. sr = Some s \<longrightarrow> readerContract s"
  shows "fileOutput md5sum index sr (fst (fileResponse sees md5sum index sr t))
       \<and> \<not> snd (snd (fileResponse sees md5sum index sr t))"
proof (cases sr)
  case None
  then show ?thesis
    by (simp add: fileResponse_def fileOutput_def)
next
  case (Some s)
  show ?thesis
  proof (cases "Size s = 0")
    case True
    with Some show ?thesis
      by (simp add: fileResponse_def fileOutput_def)
  next
    case False
    have rc: "readerContract s"
      using assms(2) Some by simp
    let ?res = "readChunks sees index s t 0 []"
    obtain m where m: "payloads ?res = map (chunkAt index s) [0 ..< m + 1]"
      "written ?res = concat (map (\<lambda>k. fst (ReadAt s 1024 (1024 * k))) [0 ..< m + 1])"
      "\<not> stopped ?res"
      "snd (ReadAt s 1024 (1024 * m)) = Some EOF"
      "\<forall>k. k < m \<longrightarrow> snd (ReadAt s 1024 (1024 * k)) \<noteq> Some EOF"
      using readChunks_open [OF assms(1), of index s t 0 "[]"] by auto
    let ?ps = "map (chunkAt index s) [0 ..< m + 1]"
    have out: "fst (fileResponse sees md5sum index sr t) =
        map Payload ?ps @
        [Metadata \<lparr>serverMetaData.ackNum = 0, serverMetaData.status = noErr,
                   serverMetaData.fileIndex = index, fsize = of_nat (Size s),
                   checkSum = take 16 (md5sum (written ?res))\<rparr>]"
      "\<not> snd (snd (fileResponse sees md5sum index sr t))"
      using Some False m(1,3) by (simp_all add: fileResponse_def Let_def noErr_def)
    have w: "written ?res = concat (map serverPayload.data ?ps)"
      unfolding m(2) by (simp add: chunkAt_def comp_def del: upt_Suc)
    have len: "length ?ps = m + 1" by simp
    have 1: "?ps \<noteq> []" by simp
    have 2: "map serverPayload.offset ?ps = map of_nat [0 ..< length ?ps]"
      by (simp add: chunkAt_def comp_def del: upt_Suc)
    have "m + 1 \<le> 2 ^ 64"
    proof (cases m)
      case 0
      then show ?thesis by simp
    next
      case (Suc j)
      then have "snd (ReadAt s 1024 (1024 * j)) \<noteq> Some EOF"
        using m(5) by simp
      then have "1024 * j < Size s"
        by (rule ReadAt_before_end)
      moreover have "Size s < 2 ^ 63"
        using rc by (simp add: readerContract_def)
      ultimately have "j < 2 ^ 63" by simp
      with Suc show ?thesis by simp
    qed
    then have 3: "sorted_wrt (<) (map serverPayload.offset ?ps)"
      unfolding 2 len by (rule sorted_offsets)
    have 4: "list_all (\<lambda>p. serverPayload.fileIndex p = index
                          \<and> length (serverPayload.data p) \<le> 1024) ?ps"
      using ReadAt_length [OF rc]
      by (simp add: list_all_iff chunkAt_def del: upt_Suc)
    have 5: "list_all (\<lambda>k. serverPayload.data (?ps ! k) = fst (ReadAt s 1024 (1024 * k))
                          \<and> (snd (ReadAt s 1024 (1024 * k)) = Some EOF) = (k = length ?ps - 1))
               [0 ..< length ?ps]"
      unfolding list_all_iff
    proof
      fix k assume "k \<in> set [0 ..< length ?ps]"
      then have k: "k < m + 1" by auto
      then have "?ps ! k = chunkAt index s k"
        by (simp add: nth_append del: upt_Suc)
      moreover have "(snd (ReadAt s 1024 (1024 * k)) = Some EOF) = (k = m)"
        using k m(4,5) by (cases "k = m") auto
      ultimately show "serverPayload.data (?ps ! k) = fst (ReadAt s 1024 (1024 * k))
            \<and> (snd (ReadAt s 1024 (1024 * k)) = Some EOF) = (k = length ?ps - 1)"
        by (simp add: chunkAt_def)
    qed
    have 0: "fst (fileResponse sees md5sum index sr t) =
        map Payload ?ps @
        [Metadata \<lparr>serverMetaData.ackNum = 0, serverMetaData.status = noErr,
                   serverMetaData.fileIndex = index, fsize = of_nat (Size s),
                   checkSum = take 16 (md5sum (concat (map serverPayload.data ?ps)))\<rparr>]"
      using out(1) w by (simp only:)
    have "\<exists>ps. fst (fileResponse sees md5sum index sr t) =
              map Payload ps @
              [Metadata \<lparr>serverMetaData.ackNum = 0, serverMetaData.status = noErr,
                         serverMetaData.fileIndex = index, fsize = of_nat (Size s),
                         checkSum = take 16 (md5sum (concat (map serverPayload.data ps)))\<rparr>]
            \<and> ps \<noteq> []
            \<and> map serverPayload.offset ps = map of_nat [0 ..< length ps]
            \<and> sorted_wrt (<) (map serverPayload.offset ps)
            \<and> list_all (\<lambda>p. serverPayload.fileIndex p = index
                             \<and> length (serverPayload.data p) \<le> 1024) ps
            \<and> list_all (\<lambda>k. serverPayload.data (ps ! k) = fst (ReadAt s 1024 (1024 * k))
                             \<and> (snd (ReadAt s 1024 (1024 * k)) = Some EOF)
                                 = (k = length ps - 1))
                 [0 ..< length ps]"
      using 0 1 2 3 4 5 by (intro exI [of _ ?ps] conjI)
    then have "fileOutput md5sum index sr (fst (fileResponse sees md5sum index sr t))"
      using Some False by (simp add: fileOutput_def)
    with out(2) show ?thesis by simp
  qed
qed


lemma responseLoop_open:
  "\<forall>t. \<not> sees t \<Longrightarrow> \<forall>s. Some s \<in> set srs \<longrightarrow> readerContract s \<Longrightarrow>
   \<exists>outs. length outs = length srs
     \<and> responseLoop sees md5sum t i srs = concat outs
     \<and> (\<forall>k < length srs. fileOutput md5sum (of_nat (i + k)) (srs ! k) (outs ! k))"
proof (induction srs arbitrary: t i)
  case Nil
  show ?case by simp
next
  case (Cons sr rest)
  obtain out t' returned where f: "fileResponse sees md5sum (of_nat i) sr (t + 1) = (out, t', returned)"
    by (cases "fileResponse sees md5sum (of_nat i) sr (t + 1)") auto
  have "\<forall>s. sr = Some s \<longrightarrow> readerContract s"
    using Cons.prems(2) by simp
  from fileResponse_open [OF Cons.prems(1) this, of md5sum "of_nat i" "t + 1"] f
  have o: "fileOutput md5sum (of_nat i) sr out" "\<not> returned"
    by simp_all
  have "\<forall>s. Some s \<in> set rest \<longrightarrow> readerContract s"
    using Cons.prems(2) by simp
  from Cons.IH [OF Cons.prems(1) this, of t' "i + 1"]
  obtain outs where outs: "length outs = length rest"
    "responseLoop sees md5sum t' (i + 1) rest = concat outs"
    "\<forall>k < length rest. fileOutput md5sum (of_nat (i + 1 + k)) (rest ! k) (outs ! k)"
    by blast
  have 1: "length (out # outs) = length (sr # rest)"
    using outs(1) by simp
  have 2: "responseLoop sees md5sum t i (sr # rest) = concat (out # outs)"
    using Cons.prems(1) f o(2) outs(2) by simp
  have 3: "fileOutput md5sum (of_nat (i + k)) ((sr # rest) ! k) ((out # outs) ! k)"
    if "k < length (sr # rest)" for k
  proof (cases k)
    case 0
    with o(1) show ?thesis by simp
  next
    case (Suc j)
    with that have "j < length rest" by simp
    with outs(3) have "fileOutput md5sum (of_nat (i + 1 + j)) (rest ! j) (outs ! j)"
      by blast
    with Suc show ?thesis by simp
  qed
  from 1 2 3 show ?case by blast
qed


lemma readerContract_fileReader:
  "length content < 2 ^ 63 \<Longrightarrow> readerContract (fileReader content)"
  by (simp add: readerContract_def fileReader_def fileSource_def)

lemma ReadAt_fileReader:
  "ReadAt (fileReader content) 1024 off =
     (take 1024 (drop off content),
      if length content < off + 1024 then Some EOF else None)"
  by (auto simp: ReadAt_def fileReader_def fileSource_def Let_def)

lemma getResponse_closed:
  "sees 0 \<Longrightarrow> getResponse sees fh md5sum req = []"
  by (cases "files req") (simp_all add: getResponse_def)

lemma Size_fileReader: "Size (fileReader content) = length content"
  by (simp add: fileReader_def)

lemma responses_example:
  "getResponse openSession handlerExample digestExample requestExample =
     [Metadata \<lparr>serverMetaData.ackNum = 0, serverMetaData.status = fileNotExistent,
                serverMetaData.fileIndex = 0, fsize = 0, checkSum = replicate 16 0\<rparr>,
      Metadata \<lparr>serverMetaData.ackNum = 0, serverMetaData.status = fileEmpty,
                serverMetaData.fileIndex = 1, fsize = 0, checkSum = replicate 16 0\<rparr>,
      Payload \<lparr>serverPayload.fileIndex = 2, serverPayload.ackNumber = 0,
               serverPayload.offset = 0, data = replicate 1024 7\<rparr>,
      Payload \<lparr>serverPayload.fileIndex = 2, serverPayload.ackNumber = 0,
               serverPayload.offset = 1, data = replicate 476 7\<rparr>,
      Metadata \<lparr>serverMetaData.ackNum = 0, serverMetaData.status = noErr,
                serverMetaData.fileIndex = 2, fsize = 1500, checkSum = replicate 16 7\<rparr>]"
  by (simp add: getResponse_def requestExample_def handlerExample_def fileResponse_def
      readChunks.simps ReadAt_fileReader Size_fileReader Let_def noErr_def
      openSession_def closedAtLook_def digestExample_def
      flip: replicate_add)

lemma responses_example_closed:
  "getResponse (closedAtLook 4) handlerExample digestExample requestExample =
     [Metadata \<lparr>serverMetaData.ackNum = 0, serverMetaData.status = fileNotExistent,
                serverMetaData.fileIndex = 0, fsize = 0, checkSum = replicate 16 0\<rparr>,
      Metadata \<lparr>serverMetaData.ackNum = 0, serverMetaData.status = fileEmpty,
                serverMetaData.fileIndex = 1, fsize = 0, checkSum = replicate 16 0\<rparr>,
      Payload \<lparr>serverPayload.fileIndex = 2, serverPayload.ackNumber = 0,
               serverPayload.offset = 0, data = replicate 1024 7\<rparr>]"
  by (simp add: getResponse_def requestExample_def handlerExample_def fileResponse_def
      readChunks.simps ReadAt_fileReader Size_fileReader Let_def noErr_def
      openSession_def closedAtLook_def digestExample_def)



text \<open>
  Claim C7, as amended.  In a run in which the producer never finds the session closed, and
  with readers that keep to what \<open>io.ReaderAt\<close> and \<open>int64\<close> promise, the producer deals
  with the requested files one after the other, in order, and emits for each what
  \<open>fileOutput\<close> says: for a file that resolves to a reader of size \<open>n > 0\<close>, payloads with
  the chunk offsets 0, 1, 2, ... in strictly increasing order, each with at most 1024 bytes
  read from the file, and after the last of them one metadata with status 0, size \<open>n\<close> and
  the checksum of the bytes read; for an absent file one metadata with status
  \<open>fileNotExistent\<close>; for a file of size 0 one metadata with status \<open>fileEmpty\<close>.  A read
  that fails with an error other than \<open>io.EOF\<close> does not end the loop: its bytes are sent
  and hashed like those of any other read.
\<close>

theorem getResponse_emits:
  assumes "\<forall>t. \<not> sees t"
    and "\<forall>fr \<in> set (files req). \<forall>s.
           fh (fileName fr) (fileDescriptor.offset fr) = Some s \<longrightarrow> readerContract s"
  shows "\<exists>outs. length outs = length (files req)
     \<and> getResponse sees fh md5sum req = concat outs
     \<and> (\<forall>k < length (files req).
          fileOutput md5sum (of_nat k)
            (fh (fileName (files req ! k)) (fileDescriptor.offset (files req ! k))) (outs ! k))"
proof -
  let ?srs = "map (\<lambda>fr. fh (fileName fr) (fileDescriptor.offset fr)) (files req)"
  have "\<forall>s. Some s \<in> set ?srs \<longrightarrow> readerContract s"
    using assms(2) by auto
  from responseLoop_open [OF assms(1) this, of md5sum 0 0]
  obtain outs where outs: "length outs = length ?srs"
    "responseLoop sees md5sum 0 0 ?srs = concat outs"
    "\<forall>k < length ?srs. fileOutput md5sum (of_nat (0 + k)) (?srs ! k) (outs ! k)"
    by blast
  have "length outs = length (files req)"
    using outs(1) by simp
  moreover have "getResponse sees fh md5sum req = concat outs"
    using outs(2) by (simp add: getResponse_def)
  moreover have "\<forall>k < length (files req).
          fileOutput md5sum (of_nat k)
            (fh (fileName (files req ! k)) (fileDescriptor.offset (files req ! k))) (outs ! k)"
    using outs(3) by simp
  ultimately show ?thesis by blast
qed



theorem getResponse_emits_witness:
  "readerContract (fileReader []) \<and> readerContract (fileReader (replicate 1500 7))
   \<and> (\<exists>outs. length outs = length (files requestExample)
         \<and> getResponse openSession handlerExample digestExample requestExample = concat outs
         \<and> (\<forall>k < length (files requestExample).
              fileOutput digestExample (of_nat k)
                (handlerExample (fileName (files requestExample ! k))
                   (fileDescriptor.offset (files requestExample ! k))) (outs ! k)))
   \<and> getResponse openSession handlerExample digestExample requestExample =
       [Metadata \<lparr>serverMetaData.ackNum = 0, serverMetaData.status = fileNotExistent,
                  serverMetaData.fileIndex = 0, fsize = 0, checkSum = replicate 16 0\<rparr>,
        Metadata \<lparr>serverMetaData.ackNum = 0, serverMetaData.status = fileEmpty,
                  serverMetaData.fileIndex = 1, fsize = 0, checkSum = replicate 16 0\<rparr>,
        Payload \<lparr>serverPayload.fileIndex = 2, serverPayload.ackNumber = 0,
                 serverPayload.offset = 0, data = replicate 1024 7\<rparr>,
        Payload \<lparr>serverPayload.fileIndex = 2, serverPayload.ackNumber = 0,
                 serverPayload.offset = 1, data = replicate 476 7\<rparr>,
        Metadata \<lparr>serverMetaData.ackNum = 0, serverMetaData.status = noErr,
                  serverMetaData.fileIndex = 2, fsize = 1500, checkSum = replicate 16 7\<rparr>]"
proof -
  have c: "readerContract (fileReader [])" "readerContract (fileReader (replicate 1500 7))"
    by (simp_all add: readerContract_fileReader)
  have o: "\<forall>t. \<not> openSession t"
    by (simp add: openSession_def)
  have h: "\<forall>fr \<in> set (files requestExample). \<forall>s.
      handlerExample (fileName fr) (fileDescriptor.offset fr) = Some s \<longrightarrow> readerContract s"
    using c by (auto simp: handlerExample_def split: if_splits)
  from getResponse_emits [OF o h, of digestExample] c responses_example
  show ?thesis by blast
qed


text \<open>
  Claim C7 as stated fails when the session is closed while the producer runs.  In the run
  for the request above whose look number 4 finds the session closed (the \<open>select\<close> that
  follows the second read of the file of 1500 bytes takes \<open>case <-closeChan\<close>), the
  producer returns after the chunk 0 of that file: it sends neither the chunk 1 nor the
  metadata of the file.
\<close>

theorem getResponse_closed_counterexample:
  "handlerExample [98] 0 = Some (fileReader (replicate 1500 7))
   \<and> Size (fileReader (replicate 1500 7)) = 1500
   \<and> getResponse (closedAtLook 4) handlerExample digestExample requestExample =
       [Metadata \<lparr>serverMetaData.ackNum = 0, serverMetaData.status = fileNotExistent,
                  serverMetaData.fileIndex = 0, fsize = 0, checkSum = replicate 16 0\<rparr>,
        Metadata \<lparr>serverMetaData.ackNum = 0, serverMetaData.status = fileEmpty,
                  serverMetaData.fileIndex = 1, fsize = 0, checkSum = replicate 16 0\<rparr>,
        Payload \<lparr>serverPayload.fileIndex = 2, serverPayload.ackNumber = 0,
                 serverPayload.offset = 0, data = replicate 1024 7\<rparr>]"
  using responses_example_closed by (simp add: handlerExample_def Size_fileReader)


text \<open>
  Whatever the producer sees of the session, what it emits is the beginning of what it
  emits in a run in which it never finds the session closed: the close makes it stop, and
  changes nothing else.
\<close>

lemma readChunks_prefix:
  "\<forall>t0. \<exists>rest.
     payloads (readChunks (\<lambda>t. False) index s t0 off hashed)
       = payloads (readChunks sees index s t off hashed) @ rest
     \<and> (\<not> stopped (readChunks sees index s t off hashed) \<longrightarrow>
          rest = []
          \<and> written (readChunks sees index s t off hashed)
              = written (readChunks (\<lambda>t. False) index s t0 off hashed))"
proof (induction sees index s t off hashed rule: readChunks.induct)
  case (1 sees index s t off hashed)
  obtain buf err where r: "ReadAt s 1024 (1024 * off) = (buf, err)"
    by (cases "ReadAt s 1024 (1024 * off)") auto
  show ?case
  proof (intro allI)
    fix t0
    show "\<exists>rest.
       payloads (readChunks (\<lambda>t. False) index s t0 off hashed)
         = payloads (readChunks sees index s t off hashed) @ rest
       \<and> (\<not> stopped (readChunks sees index s t off hashed) \<longrightarrow>
            rest = []
            \<and> written (readChunks sees index s t off hashed)
                = written (readChunks (\<lambda>t. False) index s t0 off hashed))"
    proof (cases "sees t")
      case True
      then have "payloads (readChunks sees index s t off hashed) = []"
        "stopped (readChunks sees index s t off hashed)"
        using r by (subst readChunks.simps, simp)+
      then show ?thesis by simp
    next
      case False
      show ?thesis
      proof (cases "err = Some EOF")
        case True
        with False r have "readChunks sees index s t off hashed
            = readChunks (\<lambda>t. False) index s t0 off hashed\<lparr>looks := t + 1\<rparr>"
          by (subst readChunks.simps, subst (2) readChunks.simps) simp
        then show ?thesis by simp
      next
        case e: False
        let ?a = "readChunks sees index s (t + 1) (off + 1) (hashed @ buf)"
        let ?b = "readChunks (\<lambda>t. False) index s (t0 + 1) (off + 1) (hashed @ buf)"
        let ?p = "\<lparr>serverPayload.fileIndex = index, serverPayload.ackNumber = 0,
                   serverPayload.offset = of_nat off, data = buf\<rparr>"
        have a: "readChunks sees index s t off hashed = ?a\<lparr>payloads := ?p # payloads ?a\<rparr>"
          using r False e by (subst readChunks.simps) (simp add: Let_def)
        have b: "readChunks (\<lambda>t. False) index s t0 off hashed
                 = ?b\<lparr>payloads := ?p # payloads ?b\<rparr>"
          using r e by (subst readChunks.simps) (simp add: Let_def)
        obtain rest where "payloads ?b = payloads ?a @ rest"
          "\<not> stopped ?a \<longrightarrow> rest = [] \<and> written ?a = written ?b"
          using "1.IH" [OF r [symmetric] False e] by blast
        then show ?thesis
          unfolding a b by simp
      qed
    qed
  qed
qed

lemma fileResponse_prefix:
  "\<exists>rest. fst (fileResponse (\<lambda>t. False) md5sum index sr t0)
             = fst (fileResponse sees md5sum index sr t) @ rest
     \<and> (\<not> snd (snd (fileResponse sees md5sum index sr t)) \<longrightarrow> rest = [])
     \<and> \<not> snd (snd (fileResponse (\<lambda>t. False) md5sum index sr t0))"
proof (cases sr)
  case None
  then show ?thesis by (simp add: fileResponse_def)
next
  case (Some s)
  show ?thesis
  proof (cases "Size s = 0")
    case True
    with Some show ?thesis by (simp add: fileResponse_def)
  next
    case False
    let ?a = "readChunks sees index s t 0 []"
    let ?b = "readChunks (\<lambda>t. False) index s t0 0 []"
    obtain rest where rest: "payloads ?b = payloads ?a @ rest"
      "\<not> stopped ?a \<longrightarrow> rest = [] \<and> written ?a = written ?b"
      using readChunks_prefix [of index s 0 "[]" sees t] by blast
    have nb: "\<not> stopped ?b"
      using readChunks_open [of "\<lambda>t. False" index s t0 0 "[]"] by auto
    show ?thesis
    proof (cases "stopped ?a")
      case True
      with Some False nb rest(1) show ?thesis
        by (simp add: fileResponse_def Let_def)
    next
      case f: False
      with Some False nb rest show ?thesis
        by (simp add: fileResponse_def Let_def)
    qed
  qed
qed

lemma responseLoop_prefix:
  "\<exists>rest. responseLoop (\<lambda>t. False) md5sum t0 i srs = responseLoop sees md5sum t i srs @ rest"
proof (induction srs arbitrary: t t0 i)
  case Nil
  show ?case by simp
next
  case (Cons sr srs)
  show ?case
  proof (cases "sees t")
    case True
    then show ?thesis by simp
  next
    case False
    obtain out t' returned where a: "fileResponse sees md5sum (of_nat i) sr (t + 1) = (out, t', returned)"
      by (cases "fileResponse sees md5sum (of_nat i) sr (t + 1)") auto
    obtain out0 t0' returned0 where b:
      "fileResponse (\<lambda>t. False) md5sum (of_nat i) sr (t0 + 1) = (out0, t0', returned0)"
      by (cases "fileResponse (\<lambda>t. False) md5sum (of_nat i) sr (t0 + 1)") auto
    obtain rest1 where r1: "out0 = out @ rest1" "\<not> returned \<longrightarrow> rest1 = []" "\<not> returned0"
      using fileResponse_prefix [of md5sum "of_nat i" sr "t0 + 1" sees "t + 1"] a b by auto
    obtain rest2 where r2: "responseLoop (\<lambda>t. False) md5sum t0' (i + 1) srs
          = responseLoop sees md5sum t' (i + 1) srs @ rest2"
      using Cons.IH by blast
    show ?thesis
    proof (cases returned)
      case True
      with False a b r1 show ?thesis by simp
    next
      case r: False
      with False a b r1 r2 show ?thesis by simp
    qed
  qed
qed

lemma getResponse_prefix:
  "\<exists>rest. getResponse (\<lambda>t. False) fh md5sum req = getResponse sees fh md5sum req @ rest"
  unfolding getResponse_def by (rule responseLoop_prefix)


text \<open>A read that fails does not end the loop: the three bytes that the failed read of
  chunk 0 returned are sent and hashed, and the next read goes on with chunk 1.\<close>

lemma responses_read_error:
  "getResponse openSession (\<lambda>name off. Some faultyReader) digestExample
     \<lparr>clientRequest.maxTransmissionRate = 0,
      files = [\<lparr>fileDescriptor.offset = 0, fileName = [98]\<rparr>]\<rparr> =
     [Payload \<lparr>serverPayload.fileIndex = 0, serverPayload.ackNumber = 0,
               serverPayload.offset = 0, data = [1, 2, 3]\<rparr>,
      Payload \<lparr>serverPayload.fileIndex = 0, serverPayload.ackNumber = 0,
               serverPayload.offset = 1, data = replicate 976 7\<rparr>,
      Metadata \<lparr>serverMetaData.ackNum = 0, serverMetaData.status = noErr,
                serverMetaData.fileIndex = 0, fsize = 2000,
                checkSum = [1, 2, 3] @ replicate 13 7\<rparr>]"
  by (simp add: getResponse_def fileResponse_def readChunks.simps ReadAt_def faultyReader_def
      fileSource_def Let_def noErr_def openSession_def digestExample_def)

text \<open>For a file that is read without errors, the payloads carry the bytes of the file,
  1024 to a chunk, and the checksum is that of the file.\<close>

lemma concat_chunks:
  "concat (map (\<lambda>k. take 1024 (drop (1024 * k) content)) [0 ..< n]) = take (1024 * n) content"
proof (induction n)
  case 0
  show ?case by simp
next
  case (Suc n)
  have "take (1024 * n) content @ take 1024 (drop (1024 * n) content)
        = take (1024 * n + 1024) content"
    by (simp add: take_add)
  with Suc show ?case by (simp add: add.commute)
qed

lemma fileOutput_fileReader:
  assumes "fileOutput md5sum index (Some (fileReader content)) out" and "content \<noteq> []"
  shows "\<exists>ps. out = map Payload ps @
                 [Metadata \<lparr>serverMetaData.ackNum = 0, serverMetaData.status = noErr,
                            serverMetaData.fileIndex = index,
                            fsize = of_nat (length content),
                            checkSum = take 16 (md5sum content)\<rparr>]
     \<and> length ps = length content div 1024 + 1
     \<and> (\<forall>k < length ps. serverPayload.data (ps ! k) = take 1024 (drop (1024 * k) content))
     \<and> concat (map serverPayload.data ps) = content"
proof -
  obtain ps where ps: "out = map Payload ps @
        [Metadata \<lparr>serverMetaData.ackNum = 0, serverMetaData.status = noErr,
                   serverMetaData.fileIndex = index, fsize = of_nat (length content),
                   checkSum = take 16 (md5sum (concat (map serverPayload.data ps)))\<rparr>]"
    "ps \<noteq> []"
    "list_all (\<lambda>k. serverPayload.data (ps ! k) = fst (ReadAt (fileReader content) 1024 (1024 * k))
                  \<and> (snd (ReadAt (fileReader content) 1024 (1024 * k)) = Some EOF)
                      = (k = length ps - 1))
       [0 ..< length ps]"
    using assms by (auto simp: fileOutput_def Size_fileReader)
  let ?n = "length ps"
  have d: "serverPayload.data (ps ! k) = take 1024 (drop (1024 * k) content)"
    and e: "(length content < 1024 * k + 1024) = (k = ?n - 1)" if "k < ?n" for k
    using ps(3) that by (auto simp: list_all_iff ReadAt_fileReader split: if_splits)
  have pos: "0 < ?n" using ps(2) by simp
  then obtain j where j: "?n = Suc j"
    by (cases ?n) auto
  then have hi: "length content < 1024 * ?n"
    using e [of j] by simp
  have lo: "1024 * (?n - 1) \<le> length content"
  proof (cases "?n = 1")
    case True
    then show ?thesis by simp
  next
    case False
    with j obtain i where i: "j = Suc i"
      by (cases j) auto
    with j e [of i] have "\<not> length content < 1024 * i + 1024" by simp
    with i j show ?thesis by simp
  qed
  have n: "?n = length content div 1024 + 1"
  proof -
    from lo have "?n - 1 \<le> length content div 1024" by simp
    moreover from hi have "length content div 1024 < ?n"
      by (simp add: div_less_iff_less_mult mult.commute)
    ultimately show ?thesis using j by simp
  qed
  have "map serverPayload.data ps = map (\<lambda>k. serverPayload.data (ps ! k)) [0 ..< ?n]"
    by (rule nth_equalityI) simp_all
  also have "\<dots> = map (\<lambda>k. take 1024 (drop (1024 * k) content)) [0 ..< ?n]"
    using d by simp
  finally have "concat (map serverPayload.data ps) = take (1024 * ?n) content"
    by (simp add: concat_chunks)
  with hi have c: "concat (map serverPayload.data ps) = content"
    by simp
  from ps(1) c n d show ?thesis by auto
qed


section \<open>The gap queue: results\<close>

subsection \<open>The scenario of the long gap\<close>

lemma gapsLoop_queueScenario4:
  "gapsLoop queueScenario4 0 0 =
     [\<lparr>resendEntry.fileIndex = 0, resendEntry.offset = 0, rlength = 0\<rparr>,
      \<lparr>resendEntry.fileIndex = 0, resendEntry.offset = 1, rlength = 255\<rparr>,
      \<lparr>resendEntry.fileIndex = 0, resendEntry.offset = 257, rlength = 43\<rparr>]"
  by (simp add: gapsLoop.simps gapsSkip.simps queueScenario4_def receivedChunk_def Len_def)

lemma sort_Sort_queueScenario4:
  "sorter serverPayload.offset srt \<Longrightarrow> sort_Sort srt queueScenario4 = queueScenario4"
  using sorter_sorted_id [of serverPayload.offset srt "items queueScenario4"]
  by (simp add: sort_Sort_def queueScenario4_def receivedChunk_def)

lemma sort_Sort_queueScenario4_swapped:
  "sorter serverPayload.offset srt \<Longrightarrow>
   sort_Sort srt (queueScenario4\<lparr>items := [receivedChunk 300, receivedChunk 0]\<rparr>)
     = queueScenario4"
  using sorter_unique [of serverPayload.offset srt "items queueScenario4"
      "[receivedChunk 300, receivedChunk 0]"]
  by (simp add: sort_Sort_def queueScenario4_def receivedChunk_def)

text \<open>
  Claim C3.  For the queue holding exactly the received offsets 0 and 300, in whichever
  order it stores them, \<open>Gaps(0)\<close> does not return the two entries \<open>{1, 255}\<close> and
  \<open>{257, 42}\<close>.  It returns three entries: \<open>{0, 0}\<close>, for the received chunk 0; \<open>{1, 255}\<close>, after which the split
  advances \<open>first\<close> by \<open>length + 1 = 256\<close>; and \<open>{257, 43}\<close>, whose length is the
  distance to the received chunk 300.  So the piece of a split gap and the entry that ends
  a gap do not give \<open>length\<close> the same meaning.
\<close>

theorem Gaps_scenario4:
  assumes "sorter serverPayload.offset srt"
  shows "offsets queueScenario4 = {0, 300}
   \<and> fst (Gaps srt queueScenario4 0) =
       [\<lparr>resendEntry.fileIndex = 0, resendEntry.offset = 0, rlength = 0\<rparr>,
        \<lparr>resendEntry.fileIndex = 0, resendEntry.offset = 1, rlength = 255\<rparr>,
        \<lparr>resendEntry.fileIndex = 0, resendEntry.offset = 257, rlength = 43\<rparr>]
   \<and> fst (Gaps srt (queueScenario4\<lparr>items := [receivedChunk 300, receivedChunk 0]\<rparr>) 0) =
       [\<lparr>resendEntry.fileIndex = 0, resendEntry.offset = 0, rlength = 0\<rparr>,
        \<lparr>resendEntry.fileIndex = 0, resendEntry.offset = 1, rlength = 255\<rparr>,
        \<lparr>resendEntry.fileIndex = 0, resendEntry.offset = 257, rlength = 43\<rparr>]"
proof -
  have "offsets queueScenario4 = {0, 300}"
    by (simp add: offsets_def queueScenario4_def receivedChunk_def)
  with assms show ?thesis
    by (simp add: Gaps_def sort_Sort_queueScenario4 sort_Sort_queueScenario4_swapped
        gapsLoop_queueScenario4)
qed

theorem Gaps_scenario4_witness:
  "offsets queueScenario4 = {0, 300}
   \<and> fst (Gaps (sort_key serverPayload.offset) queueScenario4 0) =
       [\<lparr>resendEntry.fileIndex = 0, resendEntry.offset = 0, rlength = 0\<rparr>,
        \<lparr>resendEntry.fileIndex = 0, resendEntry.offset = 1, rlength = 255\<rparr>,
        \<lparr>resendEntry.fileIndex = 0, resendEntry.offset = 257, rlength = 43\<rparr>]
   \<and> fst (Gaps (sort_key serverPayload.offset)
            (queueScenario4\<lparr>items := [receivedChunk 300, receivedChunk 0]\<rparr>) 0) =
       [\<lparr>resendEntry.fileIndex = 0, resendEntry.offset = 0, rlength = 0\<rparr>,
        \<lparr>resendEntry.fileIndex = 0, resendEntry.offset = 1, rlength = 255\<rparr>,
        \<lparr>resendEntry.fileIndex = 0, resendEntry.offset = 257, rlength = 43\<rparr>]"
  using Gaps_scenario4 [OF sorter_sort_key] .

subsection \<open>\<open>Top\<close>\<close>

lemma items_Swap: "items (Swap h i j) = (items h)[i := items h ! j, j := items h ! i]"
  by (simp add: Swap_def)

lemma length_items_down: "length (items (down h i n)) = length (items h)"
proof (induction h i n rule: down.induct)
  case (1 h i n)
  show ?case
    by (subst down.simps) (auto simp: Let_def items_Swap "1.IH" simp del: One_nat_def)
qed

lemma nth_items_down: "n \<le> k \<Longrightarrow> items (down h i n) ! k = items h ! k"
proof (induction h i n rule: down.induct)
  case (1 h i n)
  show ?case
    using "1.prems"
    by (subst down.simps) (auto simp: Let_def items_Swap "1.IH" simp del: One_nat_def)
qed

lemma heap_Pop_root:
  assumes "items h \<noteq> []"
  shows "\<exists>h'. heap_Pop h = Inr (items h ! 0, h')"
proof -
  let ?n = "Len h - 1"
  let ?h2 = "down (Swap h 0 ?n) 0 ?n"
  have n: "?n < length (items h)" using assms by (simp add: Len_def)
  have len: "length (items ?h2) = length (items h)"
    by (simp add: length_items_down items_Swap)
  then have ne: "items ?h2 \<noteq> []" using assms by auto
  have "last (items ?h2) = items ?h2 ! ?n"
    using ne len by (simp add: last_conv_nth Len_def)
  also have "\<dots> = items (Swap h 0 ?n) ! ?n"
    by (rule nth_items_down) simp
  also have "\<dots> = items h ! 0"
    using n by (simp add: items_Swap)
  finally have "last (items ?h2) = items h ! 0" .
  then show ?thesis
    using assms ne by (simp add: heap_Pop_def Pop_def Len_def Let_def)
qed

lemma heapOrdered_parent:
  "heapOrdered h \<Longrightarrow> 0 < j \<Longrightarrow> j < Len h \<Longrightarrow>
   serverPayload.offset (items h ! ((j - 1) div 2)) \<le> serverPayload.offset (items h ! j)"
  by (auto simp: heapOrdered_def list_all_iff Less_def not_less)

lemma heapOrdered_root:
  "heapOrdered h \<Longrightarrow> k < Len h \<Longrightarrow>
   serverPayload.offset (items h ! 0) \<le> serverPayload.offset (items h ! k)"
proof (induction k rule: less_induct)
  case (less k)
  show ?case
  proof (cases "k = 0")
    case True
    then show ?thesis by simp
  next
    case False
    then have p: "(k - 1) div 2 < k" by arith
    then have "serverPayload.offset (items h ! 0) \<le> serverPayload.offset (items h ! ((k - 1) div 2))"
      using less by simp
    also have "\<dots> \<le> serverPayload.offset (items h ! k)"
      using False less.prems by (intro heapOrdered_parent) simp_all
    finally show ?thesis .
  qed
qed

lemma heapOrdered_Min:
  assumes "items h \<noteq> []" "heapOrdered h"
  shows "Min (offsets h) = serverPayload.offset (items h ! 0)"
proof (rule Min_eqI)
  show "finite (offsets h)" by (simp add: offsets_def)
  show "serverPayload.offset (items h ! 0) \<in> offsets h"
    using assms(1) unfolding offsets_def by (metis length_greater_0_conv nth_mem set_map imageI)
  fix y assume "y \<in> offsets h"
  then obtain k where "k < length (items h)" "y = serverPayload.offset (items h ! k)"
    by (auto simp: offsets_def in_set_conv_nth)
  then show "serverPayload.offset (items h ! 0) \<le> y"
    using heapOrdered_root [OF assms(2), of k] by (simp add: Len_def)
qed

text \<open>
  Claim C6, as amended.  For every non-empty queue, \<open>Top\<close> returns the offset of the
  first item, the root of the heap; when the items are in heap order this is the smallest
  stored offset, \<open>min(S)\<close>.
\<close>

theorem Top_root:
  assumes "items c \<noteq> []"
  shows "map_sum id fst (Top c) = Inr (serverPayload.offset (items c ! 0)) \<and>
         (heapOrdered c \<longrightarrow> map_sum id fst (Top c) = Inr (Min (offsets c)))"
proof -
  obtain h' where "heap_Pop c = Inr (items c ! 0, h')"
    using heap_Pop_root [OF assms] by blast
  then have "map_sum id fst (Top c) = Inr (serverPayload.offset (items c ! 0))"
    using assms by (simp add: Top_def Len_def)
  then show ?thesis
    using assms by (simp add: heapOrdered_Min)
qed

theorem Top_root_witness:
  "items queueScenario4 \<noteq> [] \<and> heapOrdered queueScenario4 \<and>
   map_sum id fst (Top queueScenario4) = Inr 0 \<and> Min (offsets queueScenario4) = 0"
proof -
  have ne: "items queueScenario4 \<noteq> []"
    by (simp add: queueScenario4_def)
  have ho: "heapOrdered queueScenario4"
    by (simp add: heapOrdered_def queueScenario4_def receivedChunk_def Len_def Less_def)
  have r: "serverPayload.offset (items queueScenario4 ! 0) = 0"
    by (simp add: queueScenario4_def receivedChunk_def)
  show ?thesis
    using Top_root [OF ne] ne ho r by (auto simp: offsets_def queueScenario4_def receivedChunk_def)
qed



text \<open>\<open>Gaps\<close> leaves the queue sorted, which is a heap order (\<open>heap.Init\<close> finds nothing
  to move), so a call of \<open>Top\<close> that follows returns the smallest offset.\<close>

lemma sortedQueue_not_Less:
  "sortedQueue h \<Longrightarrow> i \<le> j \<Longrightarrow> j < Len h \<Longrightarrow> \<not> Less h j i"
  by (simp add: sortedQueue_def Less_def Len_def not_less sorted_iff_nth_mono)

lemma down_sortedQueue:
  assumes "sortedQueue h" "n \<le> Len h"
  shows "down h i n = h"
proof (cases "2 * i + 1 \<ge> n")
  case True
  then show ?thesis by (subst down.simps) simp
next
  case False
  then have a: "\<not> Less h (Suc (2 * i)) i"
    using assms by (intro sortedQueue_not_Less) simp_all
  have b: "\<not> Less h (Suc (Suc (2 * i))) i" if "Suc (Suc (2 * i)) < n"
    using that assms by (intro sortedQueue_not_Less) simp_all
  from False a b show ?thesis
    by (subst down.simps) (auto simp: Let_def)
qed

lemma heapInitLoop_sortedQueue:
  "sortedQueue h \<Longrightarrow> n \<le> Len h \<Longrightarrow> heapInitLoop h k n = h"
  by (induction k) (simp_all add: down_sortedQueue)

lemma sortedQueue_sort_Sort:
  "sorter serverPayload.offset srt \<Longrightarrow> sortedQueue (sort_Sort srt c)"
  by (simp add: sortedQueue_def sort_Sort_def sorter_sorted)

lemma Gaps_leaves_sorted:
  "sorter serverPayload.offset srt \<Longrightarrow> snd (Gaps srt c from) = sort_Sort srt c"
  by (simp add: Gaps_def Let_def heap_Init_def heapInitLoop_sortedQueue sortedQueue_sort_Sort)

lemma sortedQueue_heapOrdered: "sortedQueue h \<Longrightarrow> heapOrdered h"
proof -
  assume s: "sortedQueue h"
  have "\<not> Less h j ((j - 1) div 2)" if "j \<in> set [1..<Len h]" for j
  proof -
    have "(j - 1) div 2 \<le> j" by simp
    moreover from that have "j < Len h" by simp
    ultimately show ?thesis using s by (intro sortedQueue_not_Less)
  qed
  then show ?thesis
    by (simp add: heapOrdered_def list_all_iff)
qed

lemma offsets_sort_Sort:
  "sorter serverPayload.offset srt \<Longrightarrow> offsets (sort_Sort srt c) = offsets c"
  by (simp add: offsets_def sort_Sort_def sorter_set)

lemma Top_after_Gaps:
  assumes "sorter serverPayload.offset srt" and "items c \<noteq> []"
  shows "map_sum id fst (Top (snd (Gaps srt c from))) = Inr (Min (offsets c))"
proof -
  let ?c = "sort_Sort srt c"
  have "length (items ?c) = length (items c)"
    using assms(1) by (simp add: sort_Sort_def sorter_length)
  with assms(2) have ne: "items ?c \<noteq> []" by auto
  have ho: "heapOrdered ?c"
    using assms(1) by (intro sortedQueue_heapOrdered sortedQueue_sort_Sort)
  obtain h' where "heap_Pop ?c = Inr (items ?c ! 0, h')"
    using heap_Pop_root [OF ne] by blast
  then have "map_sum id fst (Top ?c) = Inr (serverPayload.offset (items ?c ! 0))"
    using ne by (simp add: Top_def Len_def)
  then show ?thesis
    using heapOrdered_Min [OF ne ho] assms(1) by (simp add: Gaps_leaves_sorted offsets_sort_Sort)
qed

text \<open>Claim C6 as stated fails: for the queue holding the offsets 0 and 300, \<open>Top\<close>
  returns 0, while the largest stored offset is 300.\<close>

theorem Top_counterexample:
  "offsets queueScenario4 = {0, 300} \<and>
   map_sum id fst (Top queueScenario4) = Inr 0 \<and>
   Max (offsets queueScenario4) = 300"
  by (simp add: offsets_def Top_def heap_Pop_def heap_Push_def Pop_def Push_def Swap_def Len_def
      down.simps up.simps Less_def queueScenario4_def receivedChunk_def)


subsection \<open>The runs of \<open>Gaps\<close>\<close>

lemma gapsPost_Nil: "hi < lo \<Longrightarrow> gapsPost S hi lo []"
  by (simp add: gapsPost_def covered_def)

lemma gapsPost_Cons:
  assumes lo: "lo = unat (resendEntry.offset e)"
    and b: "b = unat (resendEntry.offset e) + unat (rlength e) + 1"
    and bl: "b \<le> lo'" and bh: "b - 1 \<le> hi"
    and rest: "gapsPost S hi lo' res"
    and skipped: "\<forall>k. b \<le> k \<and> k < lo' \<longrightarrow> k \<in> S"
    and lastonly: "\<forall>k \<in> S. lo \<le> k \<and> k < b \<longrightarrow> k = b - 1"
  shows "gapsPost S hi lo (e # res)"
proof -
  have r: "run e = [lo ..< b]"
    unfolding run_def lo b ..
  have lb: "lo < b"
    using lo b by simp
  from rest have s: "sorted_wrt (<) (covered res)"
    and bnd: "\<forall>k \<in> set (covered res). lo' \<le> k \<and> k \<le> hi"
    and cov: "\<forall>k. lo' \<le> k \<and> k \<le> hi \<and> k \<notin> S \<longrightarrow> k \<in> set (covered res)"
    and lst: "\<forall>e \<in> set res. \<forall>k \<in> set (run e). k \<in> S \<longrightarrow>
                k = unat (resendEntry.offset e) + unat (rlength e)"
    unfolding gapsPost_def by blast+
  have c: "covered (e # res) = [lo ..< b] @ covered res"
    by (simp add: covered_def r)
  have "\<forall>x \<in> set [lo ..< b]. \<forall>y \<in> set (covered res). x < y"
  proof (intro ballI)
    fix x y assume "x \<in> set [lo ..< b]" "y \<in> set (covered res)"
    then have "x < b" "lo' \<le> y" using bnd by simp_all
    with bl show "x < y" by linarith
  qed
  with s have 1: "sorted_wrt (<) (covered (e # res))"
    unfolding c by (simp add: sorted_wrt_append)
  have 2: "\<forall>k \<in> set (covered (e # res)). lo \<le> k \<and> k \<le> hi"
  proof
    fix k assume "k \<in> set (covered (e # res))"
    then consider "lo \<le> k" "k < b" | "k \<in> set (covered res)"
      unfolding c by auto
    then show "lo \<le> k \<and> k \<le> hi"
    proof cases
      case 1
      with bh show ?thesis by linarith
    next
      case 2
      with bnd have "lo' \<le> k" "k \<le> hi" by simp_all
      with bl lb show ?thesis by linarith
    qed
  qed
  have 3: "\<forall>k. lo \<le> k \<and> k \<le> hi \<and> k \<notin> S \<longrightarrow> k \<in> set (covered (e # res))"
  proof (intro allI impI)
    fix k assume k: "lo \<le> k \<and> k \<le> hi \<and> k \<notin> S"
    show "k \<in> set (covered (e # res))"
    proof (cases "k < b")
      case True
      with k show ?thesis unfolding c by simp
    next
      case False
      with skipped k have "lo' \<le> k" by (meson not_le_imp_less not_less)
      with k cov have "k \<in> set (covered res)" by blast
      then show ?thesis unfolding c by simp
    qed
  qed
  have 4: "\<forall>e' \<in> set (e # res). \<forall>k \<in> set (run e'). k \<in> S \<longrightarrow>
             k = unat (resendEntry.offset e') + unat (rlength e')"
  proof (intro ballI impI)
    fix e' k assume e': "e' \<in> set (e # res)" and k: "k \<in> set (run e')" "k \<in> S"
    show "k = unat (resendEntry.offset e') + unat (rlength e')"
    proof (cases "e' = e")
      case True
      with k r have "lo \<le> k" "k < b" by simp_all
      with lastonly k have "k = b - 1" by blast
      with True b show ?thesis by simp
    next
      case False
      with e' have "e' \<in> set res" by simp
      with lst k show ?thesis by blast
    qed
  qed
  show ?thesis
    unfolding gapsPost_def using 1 2 3 4 by blast
qed


lemma length_offs: "length (offs c) = Len c"
  by (simp add: offs_def Len_def)

lemma offs_nth: "i < Len c \<Longrightarrow> offs c ! i = unat (serverPayload.offset (items c ! i))"
  by (simp add: offs_def Len_def)

lemma unat_succ:
  fixes x y :: "64 word"
  assumes "unat x < unat y"
  shows "unat (x + 1) = unat x + 1"
proof -
  have "unat y < 2 ^ 64" using unsigned_less [of y] by simp
  with assms have "unat x + 1 < 2 ^ 64" by linarith
  then show ?thesis by (simp add: unat_word_ariths)
qed

lemma unat_diff:
  fixes x first :: "64 word"
  assumes "unat first \<le> unat x"
  shows "unat (x - first) = unat x - unat first"
  using assms by (simp add: unat_sub word_le_nat_alt)

lemma split_step:
  fixes x first :: "64 word"
  assumes "unat first \<le> unat x" "255 < x - first"
  shows "unat (first + 255 + 1) = unat first + 256" "unat first + 256 \<le> unat x"
proof -
  have "255 < unat (x - first)"
    using assms(2) by (simp add: word_less_nat_alt)
  then show le: "unat first + 256 \<le> unat x"
    using assms(1) by (simp add: unat_diff)
  have "unat x < 2 ^ 64" using unsigned_less [of x] by simp
  with le have "unat first + 256 < 2 ^ 64" by linarith
  moreover have "first + 255 + 1 = first + 256" by simp
  ultimately show "unat (first + 255 + 1) = unat first + 256"
    by (simp add: unat_word_ariths)
qed

lemma nosplit_step:
  fixes x first :: "64 word"
  assumes "unat first \<le> unat x" "\<not> 255 < x - first"
  shows "unat (ucast (x - first) :: byte) = unat x - unat first"
proof -
  have "unat (x - first) \<le> 255"
    using assms(2) by (simp add: word_less_nat_alt not_less)
  then have "unat (x - first) < 2 ^ 8" by simp
  then have "unat (ucast (x - first) :: byte) = unat (x - first)"
    by (simp add: unsigned_ucast_eq take_bit_nat_eq_self)
  then show ?thesis
    using assms(1) by (simp add: unat_diff)
qed


lemma gapsSkip_inv:
  "gapsInv c first i \<Longrightarrow> i < Len c \<Longrightarrow>
   (case gapsSkip c first i of
      (f', i') \<Rightarrow> gapsInv c f' i' \<and> i' < Len c \<and> unat first \<le> unat f'
                 \<and> (\<forall>k. unat first \<le> k \<and> k < unat f' \<longrightarrow> k \<in> set (offs c)))"
proof (induction c first i rule: gapsSkip.induct)
  case (1 c first i)
  let ?x = "serverPayload.offset (items c ! i)"
  show ?case
  proof (cases "int i < int (Len c) - 1 \<and> \<not> ?x > first")
    case False
    then have "gapsSkip c first i = (first, i)"
      by (subst gapsSkip.simps) auto
    with "1.prems" show ?thesis by auto
  next
    case True
    then have i1: "i + 1 < Len c" and le: "?x \<le> first" by (simp_all add: not_less)
    from "1.prems" have srt: "sorted_wrt (<) (offs c)"
      and lo: "unat first \<le> offs c ! i" and below: "\<forall>j < i. offs c ! j < unat first"
      by (simp_all add: gapsInv_def)
    from le have "offs c ! i \<le> unat first"
      using "1.prems"(2) by (simp add: offs_nth word_le_nat_alt)
    with lo have eq: "offs c ! i = unat first" by simp
    have lt: "offs c ! i < offs c ! (i + 1)"
      using srt i1 by (simp add: sorted_wrt_iff_nth_less length_offs)
    then have "unat first < unat (serverPayload.offset (items c ! (i + 1)))"
      using eq i1 by (simp add: offs_nth)
    then have suc: "unat (first + 1) = unat first + 1"
      by (rule unat_succ)
    have inv': "gapsInv c (first + 1) (i + 1)"
      unfolding gapsInv_def
    proof (intro conjI allI impI)
      show "sorted_wrt (<) (offs c)" by (rule srt)
      show "i + 1 \<le> Len c" using i1 by simp
      show "unat (first + 1) \<le> offs c ! (i + 1)" using lt eq suc by simp
      fix j assume "j < i + 1"
      then consider "j < i" | "j = i" by linarith
      then show "offs c ! j < unat (first + 1)"
        using below eq suc by cases auto
    qed
    from True have step: "gapsSkip c first i = gapsSkip c (first + 1) (i + 1)"
      by (subst gapsSkip.simps) simp
    obtain f' i' where r: "gapsSkip c (first + 1) (i + 1) = (f', i')"
      by (cases "gapsSkip c (first + 1) (i + 1)")
    from "1.IH" [OF _ _ inv' i1] True r
    have IH: "gapsInv c f' i'" "i' < Len c" "unat (first + 1) \<le> unat f'"
      "\<forall>k. unat (first + 1) \<le> k \<and> k < unat f' \<longrightarrow> k \<in> set (offs c)"
      by simp_all
    have "unat first \<in> set (offs c)"
      using eq "1.prems"(2) by (metis length_offs nth_mem)
    with IH(4) suc have "\<forall>k. unat first \<le> k \<and> k < unat f' \<longrightarrow> k \<in> set (offs c)"
      by (metis Suc_eq_plus1 Suc_leI le_neq_implies_less)
    with IH suc show ?thesis
      unfolding step r by simp
  qed
qed


lemma gapsLoop_post:
  "gapsInv c first i \<Longrightarrow> offs c \<noteq> [] \<Longrightarrow>
   gapsPost (set (offs c)) (last (offs c)) (unat first) (gapsLoop c first i)"
proof (induction c first i rule: gapsLoop.induct)
  case (1 c first i)
  let ?x = "serverPayload.offset (items c ! i)"
  let ?S = "set (offs c)"
  let ?hi = "last (offs c)"
  from "1.prems" have srt: "sorted_wrt (<) (offs c)" and ile: "i \<le> Len c"
    and lo: "i < Len c \<longrightarrow> unat first \<le> offs c ! i"
    and below: "\<forall>j < i. offs c ! j < unat first"
    and ne: "offs c \<noteq> []"
    by (simp_all add: gapsInv_def)
  from ne have pos: "0 < Len c"
    by (simp add: length_offs [symmetric])
  have last: "?hi = offs c ! (Len c - 1)"
    using ne by (simp add: last_conv_nth length_offs)
  show ?case
  proof (cases "i < Len c")
    case False
    with ile have "i = Len c" by simp
    with below pos last have "?hi < unat first" by simp
    moreover from False have "gapsLoop c first i = []"
      by (subst gapsLoop.simps) simp
    ultimately show ?thesis by (simp add: gapsPost_Nil)
  next
    case True
    have xi: "offs c ! i = unat ?x" using True by (rule offs_nth)
    with lo True have fx: "unat first \<le> unat ?x" by simp
    have mono: "\<And>j. i \<le> j \<Longrightarrow> j < Len c \<Longrightarrow> unat ?x \<le> offs c ! j"
    proof -
      fix j assume j: "i \<le> j" "j < Len c"
      show "unat ?x \<le> offs c ! j"
      proof (cases "i = j")
        case True
        with xi show ?thesis by simp
      next
        case False
        with j have "i < j" by simp
        with srt j have "offs c ! i < offs c ! j"
          by (simp add: sorted_wrt_iff_nth_less length_offs)
        with xi show ?thesis by simp
      qed
    qed
    have hi: "unat ?x \<le> ?hi"
      unfolding last using True pos by (intro mono) simp_all
    have S: "\<forall>k \<in> ?S. k < unat first \<or> unat ?x \<le> k"
    proof
      fix k assume "k \<in> ?S"
      then obtain j where j: "j < Len c" "k = offs c ! j"
        by (auto simp: in_set_conv_nth length_offs)
      show "k < unat first \<or> unat ?x \<le> k"
      proof (cases "j < i")
        case True
        with below j show ?thesis by simp
      next
        case False
        then have "i \<le> j" by simp
        with mono j show ?thesis by simp
      qed
    qed
    show ?thesis
    proof (cases "255 < ?x - first")
      case split: True
      let ?e = "\<lparr>resendEntry.fileIndex = chunkQueue.fileIndex c, resendEntry.offset = first,
                 rlength = ucast (255 :: 64 word)\<rparr>"
      have eq: "gapsLoop c first i = ?e # gapsLoop c (first + 255 + 1) i"
        using True split by (subst gapsLoop.simps) simp
      note st = split_step [OF fx split]
      have inv': "gapsInv c (first + 255 + 1) i"
        unfolding gapsInv_def using srt ile below st xi by auto
      have rest: "gapsPost ?S ?hi (unat first + 256) (gapsLoop c (first + 255 + 1) i)"
        using "1.IH"(1) [OF True split inv' ne] st by simp
      have "gapsPost ?S ?hi (unat first) (?e # gapsLoop c (first + 255 + 1) i)"
      proof (rule gapsPost_Cons [where b = "unat first + 256" and lo' = "unat first + 256"])
        show "unat first = unat (resendEntry.offset ?e)" by simp
        show "unat first + 256 = unat (resendEntry.offset ?e) + unat (rlength ?e) + 1" by simp
        show "unat first + 256 \<le> unat first + 256" by simp
        show "unat first + 256 - 1 \<le> ?hi" using st hi by simp
        show "gapsPost ?S ?hi (unat first + 256) (gapsLoop c (first + 255 + 1) i)" by (rule rest)
        show "\<forall>k. unat first + 256 \<le> k \<and> k < unat first + 256 \<longrightarrow> k \<in> ?S" by auto
        show "\<forall>k \<in> ?S. unat first \<le> k \<and> k < unat first + 256 \<longrightarrow> k = unat first + 256 - 1"
          using S st by fastforce
      qed
      with eq show ?thesis by simp
    next
      case nosplit: False
      let ?e = "\<lparr>resendEntry.fileIndex = chunkQueue.fileIndex c, resendEntry.offset = first,
                 rlength = ucast (?x - first)\<rparr>"
      let ?f1 = "first + (?x - first) + 1"
      have eq: "gapsLoop c first i =
                  ?e # gapsLoop c (fst (gapsSkip c ?f1 (i + 1))) (snd (gapsSkip c ?f1 (i + 1)))"
        using True nosplit by (subst gapsLoop.simps) simp
      have len: "unat (rlength ?e) = unat ?x - unat first"
        using nosplit_step [OF fx nosplit] by simp
      have lastonly: "\<forall>k \<in> ?S. unat first \<le> k \<and> k < unat ?x + 1 \<longrightarrow> k = unat ?x + 1 - 1"
        using S by fastforce
      show ?thesis
      proof (cases "i + 1 < Len c")
        case last_item: False
        with True have i1: "i + 1 = Len c" by simp
        then have "gapsSkip c ?f1 (i + 1) = (?f1, i + 1)"
          by (subst gapsSkip.simps) simp
        moreover have "gapsLoop c ?f1 (i + 1) = []"
          using i1 by (subst gapsLoop.simps) simp
        ultimately have eq': "gapsLoop c first i = [?e]"
          using eq by simp
        from i1 have "Len c - 1 = i" by simp
        with last xi have hx: "?hi = unat ?x" by simp
        have "gapsPost ?S ?hi (unat first) (?e # [])"
        proof (rule gapsPost_Cons [where b = "unat ?x + 1" and lo' = "unat ?x + 1"])
          show "unat first = unat (resendEntry.offset ?e)" by simp
          show "unat ?x + 1 = unat (resendEntry.offset ?e) + unat (rlength ?e) + 1"
            using len fx by simp
          show "unat ?x + 1 \<le> unat ?x + 1" by simp
          show "unat ?x + 1 - 1 \<le> ?hi" using hi by simp
          show "gapsPost ?S ?hi (unat ?x + 1) []" using hx by (intro gapsPost_Nil) simp
          show "\<forall>k. unat ?x + 1 \<le> k \<and> k < unat ?x + 1 \<longrightarrow> k \<in> ?S" by auto
          show "\<forall>k \<in> ?S. unat first \<le> k \<and> k < unat ?x + 1 \<longrightarrow> k = unat ?x + 1 - 1"
            by (rule lastonly)
        qed
        with eq' show ?thesis by simp
      next
        case more: True
        have f1: "?f1 = ?x + 1" by simp
        have lt: "offs c ! i < offs c ! (i + 1)"
          using srt more by (simp add: sorted_wrt_iff_nth_less length_offs)
        then have "unat ?x < unat (serverPayload.offset (items c ! (i + 1)))"
          using xi more by (simp add: offs_nth)
        then have suc: "unat (?x + 1) = unat ?x + 1"
          by (rule unat_succ)
        have inv1: "gapsInv c ?f1 (i + 1)"
          unfolding gapsInv_def f1
        proof (intro conjI allI impI)
          show "sorted_wrt (<) (offs c)" by (rule srt)
          show "i + 1 \<le> Len c" using more by simp
          show "unat (?x + 1) \<le> offs c ! (i + 1)" using lt xi suc by simp
          fix j assume "j < i + 1"
          then consider "j < i" | "j = i" by linarith
          then show "offs c ! j < unat (?x + 1)"
            using below fx xi suc by cases auto
        qed
        obtain f' i' where sk: "gapsSkip c ?f1 (i + 1) = (f', i')"
          by (cases "gapsSkip c ?f1 (i + 1)")
        from gapsSkip_inv [OF inv1 more] sk
        have inv': "gapsInv c f' i'" and "i' < Len c" and ge: "unat ?f1 \<le> unat f'"
          and skipped: "\<forall>k. unat ?f1 \<le> k \<and> k < unat f' \<longrightarrow> k \<in> ?S"
          by simp_all
        have rest: "gapsPost ?S ?hi (unat f') (gapsLoop c f' i')"
          using "1.IH"(2) [OF True nosplit] inv' ne sk by simp
        have u1: "unat ?f1 = unat ?x + 1" using suc by simp
        have "gapsPost ?S ?hi (unat first) (?e # gapsLoop c f' i')"
        proof (rule gapsPost_Cons [where b = "unat ?x + 1" and lo' = "unat f'"])
          show "unat first = unat (resendEntry.offset ?e)" by simp
          show "unat ?x + 1 = unat (resendEntry.offset ?e) + unat (rlength ?e) + 1"
            using len fx by simp
          show "unat ?x + 1 \<le> unat f'" using ge u1 by simp
          show "unat ?x + 1 - 1 \<le> ?hi" using hi by simp
          show "gapsPost ?S ?hi (unat f') (gapsLoop c f' i')" by (rule rest)
          show "\<forall>k. unat ?x + 1 \<le> k \<and> k < unat f' \<longrightarrow> k \<in> ?S"
            using skipped u1 by simp
          show "\<forall>k \<in> ?S. unat first \<le> k \<and> k < unat ?x + 1 \<longrightarrow> k = unat ?x + 1 - 1"
            by (rule lastonly)
        qed
        with eq sk show ?thesis by simp
      qed
    qed
  qed
qed


lemma offs_sort_Sort:
  assumes "sorter serverPayload.offset srt"
    and "distinct (map serverPayload.offset (items c))"
  shows "sorted_wrt (<) (offs (sort_Sort srt c))"
proof -
  let ?ws = "map serverPayload.offset (srt (items c))"
  have "distinct ?ws"
    using assms by (rule sorter_distinct)
  moreover have "sorted ?ws"
    using assms(1) by (rule sorter_sorted)
  ultimately have "sorted_wrt (<) ?ws"
    by (simp add: strict_sorted_iff)
  then have "sorted_wrt (\<lambda>x y. unat x < unat y) ?ws"
    by (rule sorted_wrt_mono_rel [rotated]) (simp add: word_less_nat_alt)
  then show ?thesis
    by (simp add: offs_def sort_Sort_def sorted_wrt_map)
qed

lemma set_offs_sort_Sort:
  "sorter serverPayload.offset srt \<Longrightarrow> set (offs (sort_Sort srt c)) = unat ` offsets c"
  by (simp add: offs_def sort_Sort_def offsets_def image_image sorter_set)

lemma last_sorted_Max:
  fixes ys :: "nat list"
  assumes "sorted_wrt (<) ys" "ys \<noteq> []"
  shows "last ys = Max (set ys)"
proof (rule Max_eqI [symmetric])
  show "finite (set ys)" by simp
  show "last ys \<in> set ys" using assms(2) by simp
  fix y assume "y \<in> set ys"
  then obtain j where j: "j < length ys" "y = ys ! j"
    by (auto simp: in_set_conv_nth)
  have "sorted ys" using assms(1) by (rule strict_sorted_imp_sorted)
  then have "ys ! j \<le> ys ! (length ys - 1)"
    using j by (intro sorted_nth_mono) simp_all
  with j assms(2) show "y \<le> last ys"
    by (simp add: last_conv_nth)
qed

lemma unat_Max_offsets:
  assumes "items c \<noteq> []"
  shows "unat (Max (offsets c)) = Max (unat ` offsets c)"
proof (rule mono_Max_commute)
  show "mono (unat :: 64 word \<Rightarrow> nat)"
    by (simp add: mono_def word_le_nat_alt)
  show "finite (offsets c)" by (simp add: offsets_def)
  show "offsets c \<noteq> {}" using assms by (simp add: offsets_def)
qed

text \<open>
  What the entries of \<open>Gaps(from)\<close> cover when they are read as the claim C2 reads them,
  as the runs of the offsets \<open>offset\<close> through \<open>offset + length\<close>, for a queue that holds
  each offset of a non-empty \<open>S\<close> once and none below \<open>from\<close>: no offset occurs in two
  runs, every offset of \<open>[from, max(S)]\<close> that is not in \<open>S\<close> lies in a run, every run
  stays within \<open>[from, max(S)]\<close>, and an offset of \<open>S\<close> can lie in a run only as its last
  offset.
\<close>

lemma Gaps_stored_once:
  assumes "sorter serverPayload.offset srt"
    and "items c \<noteq> []"
    and "distinct (map serverPayload.offset (items c))"
    and "\<forall>x \<in> offsets c. from \<le> x"
  shows "distinct (covered (fst (Gaps srt c from)))
       \<and> (\<forall>k. from \<le> k \<and> k \<le> Max (offsets c) \<and> k \<notin> offsets c
               \<longrightarrow> unat k \<in> set (covered (fst (Gaps srt c from))))
       \<and> (\<forall>n \<in> set (covered (fst (Gaps srt c from))).
              unat from \<le> n \<and> n \<le> unat (Max (offsets c)))
       \<and> (\<forall>e \<in> set (fst (Gaps srt c from)). \<forall>x \<in> offsets c.
              unat x \<in> set (run e)
              \<longrightarrow> unat x = unat (resendEntry.offset e) + unat (rlength e))"
proof -
  let ?c = "sort_Sort srt c"
  let ?res = "gapsLoop ?c from 0"
  have res: "fst (Gaps srt c from) = ?res"
    by (simp add: Gaps_def Let_def)
  have srt: "sorted_wrt (<) (offs ?c)"
    using assms(1,3) by (rule offs_sort_Sort)
  have "length (offs ?c) = length (items c)"
    using assms(1) by (simp add: offs_def sort_Sort_def sorter_length)
  with assms(2) have ne: "offs ?c \<noteq> []"
    by auto
  have S: "set (offs ?c) = unat ` offsets c"
    using assms(1) by (rule set_offs_sort_Sort)
  have hi: "last (offs ?c) = unat (Max (offsets c))"
    using last_sorted_Max [OF srt ne] unat_Max_offsets [OF assms(2)] S by simp
  have "offs ?c ! 0 \<in> unat ` offsets c"
    using ne S by (metis length_greater_0_conv nth_mem)
  then have "unat from \<le> offs ?c ! 0"
    using assms(4) by (auto simp: word_le_nat_alt)
  then have "gapsInv ?c from 0"
    using srt by (simp add: gapsInv_def)
  from gapsLoop_post [OF this ne]
  have post: "gapsPost (unat ` offsets c) (unat (Max (offsets c))) (unat from) ?res"
    by (simp add: S hi)
  then have 1: "distinct (covered ?res)"
    by (simp add: gapsPost_def strict_sorted_iff)
  have 2: "\<forall>k. from \<le> k \<and> k \<le> Max (offsets c) \<and> k \<notin> offsets c
               \<longrightarrow> unat k \<in> set (covered ?res)"
  proof (intro allI impI)
    fix k :: "64 word"
    assume k: "from \<le> k \<and> k \<le> Max (offsets c) \<and> k \<notin> offsets c"
    then have "unat k \<notin> unat ` offsets c"
      by (auto dest!: unsigned_word_eqI)
    moreover from k have "unat from \<le> unat k" "unat k \<le> unat (Max (offsets c))"
      by (simp_all add: word_le_nat_alt)
    ultimately show "unat k \<in> set (covered ?res)"
      using post unfolding gapsPost_def by blast
  qed
  have 3: "\<forall>n \<in> set (covered ?res). unat from \<le> n \<and> n \<le> unat (Max (offsets c))"
    using post unfolding gapsPost_def by blast
  have 4: "\<forall>e \<in> set ?res. \<forall>x \<in> offsets c. unat x \<in> set (run e)
              \<longrightarrow> unat x = unat (resendEntry.offset e) + unat (rlength e)"
    using post unfolding gapsPost_def by blast
  show ?thesis
    unfolding res using 1 2 3 4 by blast
qed

lemma sort_Sort_queueSingle:
  "sorter serverPayload.offset srt \<Longrightarrow> sort_Sort srt queueSingle = queueSingle"
  using sorter_sorted_id [of serverPayload.offset srt "items queueSingle"]
  by (simp add: sort_Sort_def queueSingle_def receivedChunk_def)

lemma queueDuplicate_pushed:
  "heap_Push (heap_Push (heap_Push (newChunkQueue 0) (receivedChunk 5)) (receivedChunk 9))
     (receivedChunk 5) = queueDuplicate"
  by (simp add: heap_Push_def Push_def newChunkQueue_def queueDuplicate_def Len_def Less_def
      up.simps receivedChunk_def)

lemma sort_Sort_queueDuplicate:
  "sorter serverPayload.offset srt \<Longrightarrow>
   sort_Sort srt queueDuplicate =
     queueDuplicate\<lparr>items := [receivedChunk 5, receivedChunk 5, receivedChunk 9]\<rparr>"
proof -
  assume s: "sorter serverPayload.offset srt"
  have i: "inj_on serverPayload.offset (set (items queueDuplicate))"
    by (auto simp: inj_on_def queueDuplicate_def receivedChunk_def)
  have "srt (items queueDuplicate) = [receivedChunk 5, receivedChunk 5, receivedChunk 9]"
    by (rule sorter_unique [OF s _ _ i]) (simp_all add: queueDuplicate_def receivedChunk_def)
  then show ?thesis
    by (simp add: sort_Sort_def)
qed

lemma gapsLoop_queueSingle:
  "gapsLoop queueSingle 0 0 =
     [\<lparr>resendEntry.fileIndex = 0, resendEntry.offset = 0, rlength = 0\<rparr>]"
  by (simp add: queueSingle_def receivedChunk_def gapsLoop.simps gapsSkip.simps Len_def)

lemma gapsLoop_queueDuplicate:
  "gapsLoop (queueDuplicate\<lparr>items := [receivedChunk 5, receivedChunk 5, receivedChunk 9]\<rparr>)
     5 0 =
     [\<lparr>resendEntry.fileIndex = 0, resendEntry.offset = 5, rlength = 0\<rparr>,
      \<lparr>resendEntry.fileIndex = 0, resendEntry.offset = 7, rlength = 2\<rparr>]"
  by (simp add: queueDuplicate_def receivedChunk_def gapsLoop.simps gapsSkip.simps Len_def)

text \<open>
  Claim C2.  With every entry read as the run of the offsets \<open>offset\<close> through
  \<open>offset + length\<close>, the runs of \<open>Gaps\<close> contain received offsets, and with an offset
  stored twice they leave out a missing one.  For the queue that holds the single offset 0,
  \<open>Gaps(0)\<close> returns the entry \<open>{0, 0}\<close>: its run is the received offset 0, and nothing
  is missing.  For the queue into which the chunks 5, 9 and once more 5 were pushed,
  \<open>Gaps(5)\<close> returns \<open>{5, 0}\<close> and \<open>{7, 2}\<close>: the runs hold the received offsets 5 and
  9, and the missing offset 6 is in neither.
\<close>

theorem Gaps_runs_hold_received_offsets:
  assumes "sorter serverPayload.offset srt"
  shows "offsets queueSingle = {0}
       \<and> fst (Gaps srt queueSingle 0) =
           [\<lparr>resendEntry.fileIndex = 0, resendEntry.offset = 0, rlength = 0\<rparr>]
       \<and> covered (fst (Gaps srt queueSingle 0)) = [0]
       \<and> offsets queueDuplicate = {5, 9}
       \<and> fst (Gaps srt queueDuplicate 5) =
           [\<lparr>resendEntry.fileIndex = 0, resendEntry.offset = 5, rlength = 0\<rparr>,
            \<lparr>resendEntry.fileIndex = 0, resendEntry.offset = 7, rlength = 2\<rparr>]
       \<and> covered (fst (Gaps srt queueDuplicate 5)) = [5, 7, 8, 9]"
proof -
  have 1: "fst (Gaps srt queueSingle 0) =
           [\<lparr>resendEntry.fileIndex = 0, resendEntry.offset = 0, rlength = 0\<rparr>]"
    using assms by (simp add: Gaps_def sort_Sort_queueSingle gapsLoop_queueSingle)
  have 2: "fst (Gaps srt queueDuplicate 5) =
           [\<lparr>resendEntry.fileIndex = 0, resendEntry.offset = 5, rlength = 0\<rparr>,
            \<lparr>resendEntry.fileIndex = 0, resendEntry.offset = 7, rlength = 2\<rparr>]"
    using assms by (simp add: Gaps_def sort_Sort_queueDuplicate gapsLoop_queueDuplicate)
  have 3: "offsets queueSingle = {0}" "offsets queueDuplicate = {5, 9}"
    by (auto simp: offsets_def queueSingle_def queueDuplicate_def receivedChunk_def)
  have 4: "covered (fst (Gaps srt queueSingle 0)) = [0]"
    unfolding 1 by (simp add: covered_def run_def)
  have 5: "covered (fst (Gaps srt queueDuplicate 5)) = [5, 7, 8, 9]"
    unfolding 2 by (simp add: covered_def run_def upt_conv_Cons)
  from 1 2 3 4 5 show ?thesis by blast
qed

theorem Gaps_runs_hold_received_offsets_witness:
  "offsets queueSingle = {0}
   \<and> fst (Gaps (sort_key serverPayload.offset) queueSingle 0) =
       [\<lparr>resendEntry.fileIndex = 0, resendEntry.offset = 0, rlength = 0\<rparr>]
   \<and> covered (fst (Gaps (sort_key serverPayload.offset) queueSingle 0)) = [0]
   \<and> offsets queueDuplicate = {5, 9}
   \<and> fst (Gaps (sort_key serverPayload.offset) queueDuplicate 5) =
       [\<lparr>resendEntry.fileIndex = 0, resendEntry.offset = 5, rlength = 0\<rparr>,
        \<lparr>resendEntry.fileIndex = 0, resendEntry.offset = 7, rlength = 2\<rparr>]
   \<and> covered (fst (Gaps (sort_key serverPayload.offset) queueDuplicate 5)) = [5, 7, 8, 9]"
  using Gaps_runs_hold_received_offsets [OF sorter_sort_key] .


section \<open>The gap queue and the rescheduler together\<close>

lemma unat_plus_of_nat:
  fixes a :: "64 word"
  assumes "unat a + k < 2 ^ 64"
  shows "unat (a + of_nat k) = unat a + k"
proof -
  from assms have "k < 2 ^ 64" by simp
  then have "unat (of_nat k :: 64 word) = k"
    by (simp add: unat_of_nat take_bit_nat_eq_self)
  with assms show ?thesis
    by (simp add: unat_word_ariths)
qed

lemma resent_cacheUpTo:
  assumes "resendEntry.fileIndex re = 0"
    and "unat (resendEntry.offset re) + resendCount re \<le> unat n + 1"
  shows "cachedRun (cacheUpTo n) re"
    and "map serverPayload.offset (resent (cacheUpTo n) re) =
           map (\<lambda>k. of_nat (unat (resendEntry.offset re) + k)) [0 ..< resendCount re]"
proof -
  have le: "resendEntry.offset re + of_nat k \<le> n" if "k < resendCount re" for k
  proof -
    have "unat n < 2 ^ 64"
      using unsigned_less [of n] by simp
    with that assms(2) have "unat (resendEntry.offset re) + k < 2 ^ 64"
      by simp
    then have "unat (resendEntry.offset re + of_nat k) = unat (resendEntry.offset re) + k"
      by (rule unat_plus_of_nat)
    with that assms(2) show ?thesis
      by (simp add: word_le_nat_alt)
  qed
  then show "cachedRun (cacheUpTo n) re"
    using assms(1) by (simp add: cachedRun_def getFromCache_cacheUpTo)
  have "serverPayload.offset (the (getFromCache (cacheUpTo n) (resendEntry.fileIndex re)
            (resendEntry.offset re + of_nat k)))
        = of_nat (unat (resendEntry.offset re) + k)" if "k < resendCount re" for k
    using le [OF that] assms(1) by (simp add: getFromCache_cacheUpTo cachedChunk_def)
  then show "map serverPayload.offset (resent (cacheUpTo n) re) =
           map (\<lambda>k. of_nat (unat (resendEntry.offset re) + k)) [0 ..< resendCount re]"
    by (simp add: resent_def)
qed

lemma map_of_nat_shift:
  "map (\<lambda>k. of_nat (a + k)) [0 ..< n] = map of_nat [a ..< a + n]"
  by (induction n) simp_all

text \<open>
  An ack that carries the entries of \<open>Gaps(0)\<close> for the received offsets 0 and 300, met
  by a server that has the chunks 0 through 300 cached: the rescheduler resends the chunk
  0, which was received, and the chunks 1 through 255 and 257 through 299.  The missing
  chunk 256 is not resent: the split in \<open>Gaps\<close> advanced by \<open>length + 1\<close>, the loop of
  the rescheduler runs for \<open>i < length\<close>.
\<close>

lemma reschedule_Gaps_scenario4:
  assumes "sorter serverPayload.offset srtQ" and "sorter resendEntry.offset srtE"
    and "resendEntries ack = fst (Gaps srtQ queueScenario4 0)"
    and "clientAck.maxTransmissionRate ack = 0"
  shows "map serverPayload.offset
           (fst (snd (reschedule srtE (cacheUpTo 300) metadataCache {} ack)))
         = 0 # map of_nat [1 ..< 256] @ map of_nat [257 ..< 300]"
proof -
  let ?e0 = "\<lparr>resendEntry.fileIndex = 0, resendEntry.offset = 0, rlength = 0\<rparr>"
  let ?e1 = "\<lparr>resendEntry.fileIndex = 0, resendEntry.offset = 1, rlength = 255\<rparr>"
  let ?e2 = "\<lparr>resendEntry.fileIndex = 0, resendEntry.offset = 257, rlength = 43\<rparr>"
  have es: "resendEntries ack = [?e0, ?e1, ?e2]"
    using assms(1,3) by (simp add: Gaps_def sort_Sort_queueScenario4 gapsLoop_queueScenario4)
  have srt: "srtE (resendEntries ack) = resendEntries ack"
    using assms(2) unfolding es by (rule sorter_sorted_id) simp_all
  have c: "resendCount ?e0 = 1" "resendCount ?e1 = 255" "resendCount ?e2 = 43"
    by (simp_all add: resendCount_def)
  have r0: "cachedRun (cacheUpTo 300) ?e0"
    "map serverPayload.offset (resent (cacheUpTo 300) ?e0) = [0]"
    using resent_cacheUpTo [of ?e0 300] by (simp_all add: c)
  have r1: "cachedRun (cacheUpTo 300) ?e1"
    "map serverPayload.offset (resent (cacheUpTo 300) ?e1) = map of_nat [1 ..< 256]"
    using resent_cacheUpTo [of ?e1 300] map_of_nat_shift [of 1 255, where ?'a = "64 word"]
    by (simp_all add: c)
  have r2: "cachedRun (cacheUpTo 300) ?e2"
    "map serverPayload.offset (resent (cacheUpTo 300) ?e2) = map of_nat [257 ..< 300]"
    using resent_cacheUpTo [of ?e2 300] map_of_nat_shift [of 257 43, where ?'a = "64 word"]
    by (simp_all add: c)
  have out: "fst (snd (reschedule srtE (cacheUpTo 300) metadataCache {} ack)) =
           concat (map (resent (cacheUpTo 300)) (srtE (resendEntries ack)))"
    using assms(2)
  proof (rule reschedule_all_cached)
    show "resendEntries ack \<noteq> []" by (simp add: es)
    show "clientAck.maxTransmissionRate ack = 0
         \<or> length (resendEntries ack) \<le> unat (clientAck.maxTransmissionRate ack) + 1"
      using assms(4) by simp
    show "distinct (map entryKey (resendEntries ack))"
      by (simp add: es entryKey_def)
    show "\<forall>re \<in> set (resendEntries ack). entryKey re \<notin> {} \<and> cachedRun (cacheUpTo 300) re"
      using r0(1) r1(1) r2(1) by (simp add: es)
  qed
  have "map serverPayload.offset
          (fst (snd (reschedule srtE (cacheUpTo 300) metadataCache {} ack)))
        = map serverPayload.offset (resent (cacheUpTo 300) ?e0)
          @ map serverPayload.offset (resent (cacheUpTo 300) ?e1)
          @ map serverPayload.offset (resent (cacheUpTo 300) ?e2)"
    unfolding out srt unfolding es by simp
  then show ?thesis
    by (simp only: r0(2) r1(2) r2(2) append_Cons append_Nil)
qed

lemma offset_256_not_listed:
  "(256 :: 64 word) \<notin> set (0 # map of_nat [1 ..< 256] @ map of_nat [257 ..< 300])"
proof -
  have "(of_nat k :: 64 word) \<noteq> 256" if "k < 300" "k \<noteq> 256" for k
  proof
    assume "(of_nat k :: 64 word) = 256"
    then have "unat (of_nat k :: 64 word) = 256" by simp
    moreover from that(1) have "unat (of_nat k :: 64 word) = k"
      by (simp add: unat_of_nat take_bit_nat_eq_self)
    ultimately show False using that(2) by simp
  qed
  then show ?thesis by auto
qed

lemma reschedule_Gaps_scenario4_skips_256:
  assumes "sorter serverPayload.offset srtQ" and "sorter resendEntry.offset srtE"
    and "resendEntries ack = fst (Gaps srtQ queueScenario4 0)"
    and "clientAck.maxTransmissionRate ack = 0"
  shows "256 \<notin> offsets queueScenario4
       \<and> 256 \<notin> serverPayload.offset `
             set (fst (snd (reschedule srtE (cacheUpTo 300) metadataCache {} ack)))"
proof -
  have "256 \<notin> offsets queueScenario4"
    by (simp add: offsets_def queueScenario4_def receivedChunk_def)
  moreover have "256 \<notin> set (map serverPayload.offset
      (fst (snd (reschedule srtE (cacheUpTo 300) metadataCache {} ack))))"
    unfolding reschedule_Gaps_scenario4 [OF assms] by (rule offset_256_not_listed)
  ultimately show ?thesis by simp
qed

end
